theory Spec2Isabelle
  imports Main
begin

section \<open>Go strings as byte sequences\<close>

text \<open>
  A Go \<^verbatim>\<open>string\<close> is a sequence of bytes, so it is a \<^typ>\<open>string\<close> here:
  \<^verbatim>\<open>len\<close> is \<^const>\<open>length\<close> and \<^verbatim>\<open>s[i]\<close> is the byte \<open>s ! i\<close>.
\<close>

definition HasPrefix :: "string \<Rightarrow> string \<Rightarrow> bool" where
  "HasPrefix s prefix = (length prefix \<le> length s \<and> take (length prefix) s = prefix)"

text \<open>
  \<^verbatim>\<open>strings.TrimSpace\<close> and \<^verbatim>\<open>strings.Fields\<close> work on the white space of Unicode
  (\<^verbatim>\<open>unicode.IsSpace\<close>). These are the UTF-8 encodings of its code points: the six of
  ASCII, U+0085, U+00A0, U+1680, U+2000 to U+200A, U+2028, U+2029, U+202F, U+205F and
  U+3000. The first byte of each is not a continuation byte and the others are, so a
  match at a byte position is a match of the decoded rune.
\<close>

definition space_runes :: "nat list list" where
  "space_runes =
     [[0x09], [0x0A], [0x0B], [0x0C], [0x0D], [0x20],
      [0xC2, 0x85], [0xC2, 0xA0], [0xE1, 0x9A, 0x80],
      [0xE2, 0x80, 0x80], [0xE2, 0x80, 0x81], [0xE2, 0x80, 0x82], [0xE2, 0x80, 0x83],
      [0xE2, 0x80, 0x84], [0xE2, 0x80, 0x85], [0xE2, 0x80, 0x86], [0xE2, 0x80, 0x87],
      [0xE2, 0x80, 0x88], [0xE2, 0x80, 0x89], [0xE2, 0x80, 0x8A],
      [0xE2, 0x80, 0xA8], [0xE2, 0x80, 0xA9], [0xE2, 0x80, 0xAF],
      [0xE2, 0x81, 0x9F], [0xE3, 0x80, 0x80]]"

text \<open>The number of bytes of the rune of \<open>runes\<close> that \<open>s\<close> starts with, 0 when there is none.\<close>

definition rune_width :: "nat list list \<Rightarrow> string \<Rightarrow> nat" where
  "rune_width runes s =
     (case filter (\<lambda>r. take (length r) (map of_char s) = r) runes of
        [] \<Rightarrow> 0
      | r # _ \<Rightarrow> length r)"

function dropRunes :: "nat list list \<Rightarrow> string \<Rightarrow> string" where
  "dropRunes runes s =
     (if s = [] \<or> rune_width runes s = 0 then s
      else dropRunes runes (drop (rune_width runes s) s))"
  by pat_completeness auto
termination
  by (relation "measure (\<lambda>(runes, s). length s)") auto

text \<open>\<^verbatim>\<open>strings.TrimSpace\<close>: the white space at the front goes, then the white space at the
  back (found from the end, so by the reversed encodings on the reversed bytes).\<close>

definition TrimSpace :: "string \<Rightarrow> string" where
  "TrimSpace s = rev (dropRunes (map rev space_runes) (rev (dropRunes space_runes s)))"

text \<open>\<^verbatim>\<open>strings.Fields\<close>: the maximal runs of bytes between white space. \<open>cur\<close> is the
  field being read.\<close>

function Fields_from :: "string \<Rightarrow> string \<Rightarrow> string list" where
  "Fields_from cur [] = (if cur = [] then [] else [cur])"
| "Fields_from cur (c # cs) =
     (if rune_width space_runes (c # cs) = 0 then Fields_from (cur @ [c]) cs
      else (if cur = [] then [] else [cur])
           @ Fields_from [] (drop (rune_width space_runes (c # cs) - 1) cs))"
  by pat_completeness auto
termination
  by (relation "measure (\<lambda>(cur, s). length s)") auto

definition Fields :: "string \<Rightarrow> string list" where
  "Fields s = Fields_from [] s"

section \<open>The data model\<close>

text \<open>
  \<^verbatim>\<open>data.CfrStructure\<close>. The pointer fields: \<open>Heading\<close> and \<open>TextContent\<close> point to a
  fresh string that nothing writes again, so they are the optional string. \<open>NodeId\<close> is
  \<^verbatim>\<open>&attr.Value\<close>, the address of the range variable of the attribute loop: it is kept as
  that address, the attribute list with the index of the iteration, and \<open>deref_attr\<close>
  reads it. \<open>ParentId\<close> is \<^verbatim>\<open>&parent.InternalId\<close>: it is kept as the position, in the
  flattened list of the document, of the structure whose field it addresses.
  \<open>CreatedAt\<close> is the zero time, written 0.
\<close>

datatype attr_ref = AttrValue "(string \<times> string) list" nat

text \<open>Before Go 1.22 one range variable serves every iteration and holds the last
  attribute when the loop is over; from Go 1.22 on each iteration has its own.\<close>

fun deref_attr :: "bool \<Rightarrow> attr_ref \<Rightarrow> string" where
  "deref_attr per_iteration (AttrValue attrs i) =
     (if per_iteration then snd (attrs ! i) else snd (last attrs))"

record CfrStructure =
  InternalId :: int
  Id :: string
  TitleId :: int
  TitleNumber :: int
  DivType :: string
  DivLevel :: int
  Identifier :: string
  NodeId :: "attr_ref option"
  Heading :: "string option"
  TextContent :: "string option"
  WordCount :: int
  ParentId :: "nat option"
  Path :: string
  CreatedAt :: int

record CfrParser =
  titleId :: int
  titleNumber :: int

definition NewCfrParser :: "int \<Rightarrow> int \<Rightarrow> CfrParser" where
  "NewCfrParser tid tnum = \<lparr>titleId = tid, titleNumber = tnum\<rparr>"

record ParseResult =
  Structures :: "CfrStructure list"
  TotalWords :: int

section \<open>The token stream of \<^verbatim>\<open>xml.Decoder\<close>\<close>

text \<open>
  \<^verbatim>\<open>encoding/xml\<close> is the Go library, not code of this repository. A decoder over a
  document text is the list of tokens that its \<^verbatim>\<open>Token\<close> method yields, followed by the
  error that ends them: \<^verbatim>\<open>io.EOF\<close> after a complete document, a syntax error otherwise
  (an element still open at the end of the text is the syntax error "unexpected EOF").
  The error is sticky: once \<^verbatim>\<open>Token\<close> has returned it, every later call returns it
  again. Only \<^verbatim>\<open>Name.Local\<close> of an element or attribute name is read by the parser, so a
  name is that string.
\<close>

datatype token =
    StartElement string "(string \<times> string) list"
  | EndElement string
  | CharData string
  | Comment string
  | ProcInst string string
  | Directive string

datatype xml_err = EOF | SyntaxError string

type_synonym xml_decoder = "token list \<times> xml_err"

datatype parse_error = ErrorParsingXML xml_err

section \<open>\<^verbatim>\<open>server/parser/cfr_parser.go\<close>\<close>

definition countWords :: "string \<Rightarrow> int" where
  "countWords text = (if text = [] then 0 else int (length (Fields text)))"

text \<open>The test \<^verbatim>\<open>strings.HasPrefix(name, "DIV") && len(name) == 4\<close>.\<close>

definition isDivElement :: "string \<Rightarrow> bool" where
  "isDivElement name = (HasPrefix name ''DIV'' \<and> length name = 4)"

text \<open>\<^verbatim>\<open>int(name[3] - '0')\<close>: the subtraction is on bytes and wraps around.\<close>

definition divLevelOf :: "string \<Rightarrow> int" where
  "divLevelOf name = (int (of_char (name ! 3)) - 48) mod 256"

text \<open>The loop over \<^verbatim>\<open>startElement.Attr\<close>; \<open>i\<close> is the index of the iteration.\<close>

fun scanAttrs ::
  "(string \<times> string) list \<Rightarrow> (string \<times> string) list \<Rightarrow> nat
     \<Rightarrow> string \<times> string \<times> attr_ref option \<Rightarrow> string \<times> string \<times> attr_ref option" where
  "scanAttrs all [] i acc = acc"
| "scanAttrs all ((k, v) # rest) i (divType, identifier, nodeId) =
     scanAttrs all rest (Suc i)
       (if k = ''TYPE'' then (v, identifier, nodeId)
        else if k = ''N'' then (divType, v, nodeId)
        else if k = ''NODE'' then (divType, identifier, Some (AttrValue all i))
        else (divType, identifier, nodeId))"

definition attrTYPE :: "(string \<times> string) list \<Rightarrow> string" where
  "attrTYPE attrs = fst (scanAttrs attrs attrs 0 ([], [], None))"

definition attrN :: "(string \<times> string) list \<Rightarrow> string" where
  "attrN attrs = fst (snd (scanAttrs attrs attrs 0 ([], [], None)))"

definition attrNODE :: "(string \<times> string) list \<Rightarrow> attr_ref option" where
  "attrNODE attrs = snd (snd (scanAttrs attrs attrs 0 ([], [], None)))"

text \<open>The three statements under \<^verbatim>\<open>// Build path\<close>.\<close>

definition buildPath :: "string \<Rightarrow> string \<Rightarrow> string" where
  "buildPath parentPath identifier =
     (if parentPath \<noteq> [] then parentPath @ ''/'' else parentPath) @ identifier"

text \<open>The inner loop that reads the content of a \<^verbatim>\<open>HEAD\<close> element.\<close>

fun headLoop :: "token list \<Rightarrow> string \<Rightarrow> token list \<times> string" where
  "headLoop [] headText = ([], headText)"
| "headLoop (EndElement n # ts) headText =
     (if n = ''HEAD'' then (ts, headText) else headLoop ts headText)"
| "headLoop (CharData s # ts) headText = headLoop ts (headText @ s)"
| "headLoop (StartElement n attrs # ts) headText = headLoop ts headText"
| "headLoop (Comment s # ts) headText = headLoop ts headText"
| "headLoop (ProcInst a b # ts) headText = headLoop ts headText"
| "headLoop (Directive s # ts) headText = headLoop ts headText"

text \<open>\<open>extractTextContent\<close>: the \<^verbatim>\<open>strings.Builder\<close> behind the pointer is passed in and
  returned, with the tokens left in the decoder.\<close>

function extractTextContent :: "token list \<Rightarrow> string \<Rightarrow> string \<Rightarrow> token list \<times> string" where
  "extractTextContent [] name textContent = ([], textContent)"
| "extractTextContent (EndElement n # ts) name textContent =
     (if n = name then (ts, textContent) else extractTextContent ts name textContent)"
| "extractTextContent (StartElement n attrs # ts) name textContent =
     (case extractTextContent ts n textContent of
        (ts', textContent') \<Rightarrow> extractTextContent ts' name textContent')"
| "extractTextContent (CharData s # ts) name textContent =
     (if TrimSpace s \<noteq> [] then extractTextContent ts name (textContent @ TrimSpace s @ '' '')
      else extractTextContent ts name textContent)"
| "extractTextContent (Comment s # ts) name textContent = extractTextContent ts name textContent"
| "extractTextContent (ProcInst a b # ts) name textContent =
     extractTextContent ts name textContent"
| "extractTextContent (Directive s # ts) name textContent =
     extractTextContent ts name textContent"
  by pat_completeness auto

lemma extractTextContent_length_dom:
  "extractTextContent_dom (ts, name, textContent) \<Longrightarrow>
     length (fst (extractTextContent ts name textContent)) \<le> length ts"
proof (induction ts name textContent rule: extractTextContent.pinduct)
  case (3 n attrs ts name textContent)
  obtain ts' textContent' where inner: "extractTextContent ts n textContent = (ts', textContent')"
    by (cases "extractTextContent ts n textContent")
  have a: "length ts' \<le> length ts"
    using "3.IH"(1) inner by simp
  have b: "length (fst (extractTextContent ts' name textContent')) \<le> length ts'"
    using "3.IH"(2) [OF inner [symmetric]] .
  show ?case
    using "3.hyps" inner a b by (simp add: extractTextContent.psimps)
qed (auto simp: extractTextContent.psimps le_SucI)

lemma extractTextContent_total: "All extractTextContent_dom"
proof (relation "measure (\<lambda>(ts, name, textContent). length ts)", goal_cases)
  case (4 n attrs ts name textContent ts' textContent')
  then show ?case
    using extractTextContent_length_dom [of ts n textContent]
    by (cases "extractTextContent ts n textContent") simp
qed simp_all

termination extractTextContent
  by (rule extractTextContent_total)

lemma extractTextContent_length:
  "length (fst (extractTextContent ts name textContent)) \<le> length ts"
  by (rule extractTextContent_length_dom) (simp add: extractTextContent_total)

lemma headLoop_length: "length (fst (headLoop ts headText)) \<le> length ts"
proof (induction ts headText rule: headLoop.induct)
  case (2 n ts headText)
  then show ?case by (cases "n = ''HEAD''") simp_all
qed simp_all

text \<open>
  \<open>parseDivElement\<close> and the loop of its body, \<open>divLoop\<close>. The loop carries the
  variables that the body assigns: \<open>heading\<close>, \<open>textContent\<close> and \<open>childStructures\<close>
  (\<open>inHead\<close> is false whenever it is read). Both return the tokens left in the decoder.
  \<open>newStructure\<close> is the struct literal; the integers are unbounded, since a word count
  is at most the number of bytes of the text.
\<close>

definition newStructure ::
  "CfrParser \<Rightarrow> string \<Rightarrow> int \<Rightarrow> string \<Rightarrow> attr_ref option \<Rightarrow> string option
     \<Rightarrow> string \<Rightarrow> nat option \<Rightarrow> string \<Rightarrow> CfrStructure" where
  "newStructure p divType divLevel identifier nodeId heading text parentId path =
     \<lparr>InternalId = 0, Id = [], TitleId = titleId p, TitleNumber = titleNumber p,
      DivType = divType, DivLevel = divLevel, Identifier = identifier, NodeId = nodeId,
      Heading = heading, TextContent = (if text \<noteq> [] then Some text else None),
      WordCount = countWords text, ParentId = parentId, Path = path, CreatedAt = 0\<rparr>"

function
  parseDivElement ::
    "CfrParser \<Rightarrow> token list \<Rightarrow> string \<Rightarrow> (string \<times> string) list \<Rightarrow> int \<Rightarrow> nat option
       \<Rightarrow> string \<Rightarrow> token list \<times> CfrStructure list \<times> int"
and
  divLoop ::
    "CfrParser \<Rightarrow> token list \<Rightarrow> string \<Rightarrow> string \<Rightarrow> string option \<Rightarrow> string
       \<Rightarrow> CfrStructure list \<Rightarrow> token list \<times> string option \<times> string \<times> CfrStructure list"
where
  "parseDivElement p ts name attrs divLevel parentId parentPath =
     (case divLoop p ts name (buildPath parentPath (attrN attrs)) None [] [] of
        (ts', heading, textContent, childStructures) \<Rightarrow>
          (ts',
           newStructure p (attrTYPE attrs) divLevel (attrN attrs) (attrNODE attrs) heading
               (TrimSpace textContent) parentId (buildPath parentPath (attrN attrs))
             # childStructures,
           fold (\<lambda>child totalWords. totalWords + WordCount child) childStructures
             (countWords (TrimSpace textContent))))"
| "divLoop p [] name path heading textContent childStructures =
     ([], heading, textContent, childStructures)"
| "divLoop p (EndElement n # ts) name path heading textContent childStructures =
     (if n = name then (ts, heading, textContent, childStructures)
      else divLoop p ts name path heading textContent childStructures)"
| "divLoop p (StartElement n attrs # ts) name path heading textContent childStructures =
     (if n = ''HEAD'' then
        (case headLoop ts [] of
           (ts', headText) \<Rightarrow>
             divLoop p ts' name path (Some (TrimSpace headText)) textContent childStructures)
      else if isDivElement n then
        (case parseDivElement p ts n attrs (divLevelOf n) None path of
           (ts', childDivs, words) \<Rightarrow>
             divLoop p ts' name path heading textContent (childStructures @ childDivs))
      else
        (case extractTextContent ts n textContent of
           (ts', textContent') \<Rightarrow>
             divLoop p ts' name path heading textContent' childStructures))"
| "divLoop p (CharData s # ts) name path heading textContent childStructures =
     (if TrimSpace s \<noteq> [] then
        divLoop p ts name path heading (textContent @ TrimSpace s @ '' '') childStructures
      else divLoop p ts name path heading textContent childStructures)"
| "divLoop p (Comment s # ts) name path heading textContent childStructures =
     divLoop p ts name path heading textContent childStructures"
| "divLoop p (ProcInst a b # ts) name path heading textContent childStructures =
     divLoop p ts name path heading textContent childStructures"
| "divLoop p (Directive s # ts) name path heading textContent childStructures =
     divLoop p ts name path heading textContent childStructures"
  by pat_completeness auto

lemma parseDivElement_divLoop_length_dom:
  "parseDivElement_divLoop_dom (Inl (p, ts, name, attrs, divLevel, parentId, parentPath)) \<Longrightarrow>
     length (fst (parseDivElement p ts name attrs divLevel parentId parentPath)) \<le> length ts"
  "parseDivElement_divLoop_dom (Inr (p, ts, name, path, heading, textContent, childStructures)) \<Longrightarrow>
     length (fst (divLoop p ts name path heading textContent childStructures)) \<le> length ts"
proof (induction p ts name attrs divLevel parentId parentPath
         and p ts name path heading textContent childStructures
       rule: parseDivElement_divLoop.pinduct)
  case (1 p ts name attrs divLevel parentId parentPath)
  then show ?case
    by (cases "divLoop p ts name (buildPath parentPath (attrN attrs)) None [] []")
       (simp add: parseDivElement.psimps)
next
  case (4 p n attrs ts name path heading textContent childStructures)
  show ?case
  proof (cases "n = ''HEAD''")
    case True
    obtain ts' headText where h: "headLoop ts [] = (ts', headText)"
      by (cases "headLoop ts []")
    have "length ts' \<le> length ts"
      using headLoop_length [of ts "[]"] h by simp
    moreover have "length (fst (divLoop p ts' name path (Some (TrimSpace headText)) textContent
        childStructures)) \<le> length ts'"
      using "4.IH"(1) [OF True h [symmetric]] .
    ultimately show ?thesis
      using "4.hyps" True h by (simp add: divLoop.psimps)
  next
    case notHead: False
    show ?thesis
    proof (cases "isDivElement n")
      case True
      obtain ts' childDivs words where
        c: "parseDivElement p ts n attrs (divLevelOf n) None path = (ts', childDivs, words)"
        by (cases "parseDivElement p ts n attrs (divLevelOf n) None path")
      have "length ts' \<le> length ts"
        using "4.IH"(2) [OF notHead True] c by simp
      moreover have "length (fst (divLoop p ts' name path heading textContent
          (childStructures @ childDivs))) \<le> length ts'"
        using "4.IH"(3) [OF notHead True c [symmetric] refl] .
      ultimately show ?thesis
        using "4.hyps" notHead True c by (simp add: divLoop.psimps)
    next
      case False
      obtain ts' textContent' where
        e: "extractTextContent ts n textContent = (ts', textContent')"
        by (cases "extractTextContent ts n textContent")
      have "length ts' \<le> length ts"
        using extractTextContent_length [of ts n textContent] e by simp
      moreover have "length (fst (divLoop p ts' name path heading textContent'
          childStructures)) \<le> length ts'"
        using "4.IH"(4) [OF notHead False e [symmetric]] .
      ultimately show ?thesis
        using "4.hyps" notHead False e by (simp add: divLoop.psimps)
    qed
  qed
qed (auto simp: divLoop.psimps le_SucI)

lemma parseDivElement_divLoop_total: "All parseDivElement_divLoop_dom"
proof (relation "measure (\<lambda>x. case x of
                    Inl (p, ts, rest) \<Rightarrow> 2 * length ts + 1
                  | Inr (p, ts, rest) \<Rightarrow> 2 * length ts)", goal_cases)
  case (4 p n attrs ts name path heading textContent childStructures ts' headText)
  then show ?case
    using headLoop_length [of ts "[]"] by (cases "headLoop ts []") simp
next
  case (6 p n attrs ts name path heading textContent childStructures ts' rest childDivs words)
  then show ?case
    using parseDivElement_divLoop_length_dom(1) [of p ts n attrs "divLevelOf n" None path]
    by (cases "parseDivElement p ts n attrs (divLevelOf n) None path") simp
next
  case (7 p n attrs ts name path heading textContent childStructures ts' textContent')
  then show ?case
    using extractTextContent_length [of ts n textContent]
    by (cases "extractTextContent ts n textContent") simp
qed simp_all

termination parseDivElement
  by (rule parseDivElement_divLoop_total)

declare parseDivElement.simps [simp del]

lemma parseDivElement_length:
  "length (fst (parseDivElement p ts name attrs divLevel parentId parentPath)) \<le> length ts"
  by (rule parseDivElement_divLoop_length_dom) (simp add: parseDivElement_divLoop_total)

lemma divLoop_length:
  "length (fst (divLoop p ts name path heading textContent childStructures)) \<le> length ts"
  by (rule parseDivElement_divLoop_length_dom) (simp add: parseDivElement_divLoop_total)

text \<open>
  \<open>Parse\<close>. The document is given by the decoder over its text; \<open>ParseLoop\<close> is the
  loop, with \<open>structures\<close> and \<open>totalWords\<close>.
\<close>

function ParseLoop ::
  "CfrParser \<Rightarrow> token list \<Rightarrow> xml_err \<Rightarrow> CfrStructure list \<Rightarrow> int
     \<Rightarrow> parse_error + ParseResult" where
  "ParseLoop p [] err structures totalWords =
     (if err = EOF then Inr \<lparr>Structures = structures, TotalWords = totalWords\<rparr>
      else Inl (ErrorParsingXML err))"
| "ParseLoop p (StartElement n attrs # ts) err structures totalWords =
     (if isDivElement n then
        (case parseDivElement p ts n attrs (divLevelOf n) None [] of
           (ts', divStructures, words) \<Rightarrow>
             ParseLoop p ts' err (structures @ divStructures) (totalWords + words))
      else ParseLoop p ts err structures totalWords)"
| "ParseLoop p (EndElement n # ts) err structures totalWords =
     ParseLoop p ts err structures totalWords"
| "ParseLoop p (CharData s # ts) err structures totalWords =
     ParseLoop p ts err structures totalWords"
| "ParseLoop p (Comment s # ts) err structures totalWords =
     ParseLoop p ts err structures totalWords"
| "ParseLoop p (ProcInst a b # ts) err structures totalWords =
     ParseLoop p ts err structures totalWords"
| "ParseLoop p (Directive s # ts) err structures totalWords =
     ParseLoop p ts err structures totalWords"
  by pat_completeness auto
termination
proof (relation "measure (\<lambda>(p, ts, rest). length ts)", goal_cases)
  case (2 p n attrs ts err structures totalWords ts' rest divStructures words)
  then show ?case
    using parseDivElement_length [of p ts n attrs "divLevelOf n" None "[]"]
    by (cases "parseDivElement p ts n attrs (divLevelOf n) None []") simp
qed simp_all

definition Parse :: "CfrParser \<Rightarrow> xml_decoder \<Rightarrow> parse_error + ParseResult" where
  "Parse p decoder = ParseLoop p (fst decoder) (snd decoder) [] 0"

section \<open>\<^verbatim>\<open>server/service/CfrStructureService.go\<close>: the parent links\<close>

text \<open>
  \<open>getParentPath\<close>: the loop runs \<open>i\<close> from \<^verbatim>\<open>len(path) - 1\<close> down to 0;
  \<open>getParentPathFrom path k\<close> is the loop with \<open>k\<close> indices left, so at \<open>i = k - 1\<close>.
\<close>

fun getParentPathFrom :: "string \<Rightarrow> nat \<Rightarrow> string" where
  "getParentPathFrom path 0 = []"
| "getParentPathFrom path (Suc i) =
     (if path ! i = CHR ''/'' then take i path else getParentPathFrom path i)"

definition getParentPath :: "string \<Rightarrow> string" where
  "getParentPath path = getParentPathFrom path (length path)"

text \<open>
  The two passes of \<open>processTitle\<close> over \<^verbatim>\<open>parseResult.Structures\<close>. The first fills
  \<open>pathMap\<close>; a structure is a pointer there, which is its position in the list. The second
  sets \<open>ParentId\<close> to the address of \<^verbatim>\<open>InternalId\<close> of the structure found, again its
  position. \<open>setParent\<close> is the body of the second loop.
\<close>

fun buildPathMap :: "CfrStructure list \<Rightarrow> nat \<Rightarrow> (string \<rightharpoonup> nat) \<Rightarrow> (string \<rightharpoonup> nat)" where
  "buildPathMap [] i pathMap = pathMap"
| "buildPathMap (structure # rest) i pathMap =
     buildPathMap rest (Suc i) (pathMap(Path structure \<mapsto> i))"

definition setParent :: "(string \<rightharpoonup> nat) \<Rightarrow> CfrStructure \<Rightarrow> CfrStructure" where
  "setParent pathMap structure =
     (if getParentPath (Path structure) \<noteq> [] then
        (case pathMap (getParentPath (Path structure)) of
           Some parent \<Rightarrow> structure\<lparr>ParentId := Some parent\<rparr>
         | None \<Rightarrow> structure)
      else structure)"

definition linkParents :: "CfrStructure list \<Rightarrow> CfrStructure list" where
  "linkParents structures =
     (if length structures > 0 then
        map (setParent (buildPathMap structures 0 Map.empty)) structures
      else structures)"

section \<open>\<^verbatim>\<open>server/concurrent/runner.go\<close>\<close>

text \<open>
  A worker is given by the sends that it performs for an item, in order, on the three
  channels that \<open>Run\<close> passes to it; it returns after the last one.
\<close>

datatype 'r action = SendMessage string | SendResult 'r | SendError string

type_synonym ('t, 'r) WorkerFunc = "'t \<Rightarrow> 'r action list"

record RunnerConfig =
  MaxConcurrency :: int
  LogPrefix :: string

record Runner =
  config :: RunnerConfig

definition NewRunner :: "RunnerConfig \<Rightarrow> Runner" where
  "NewRunner cfg =
     \<lparr>config = (if LogPrefix cfg = [] then cfg\<lparr>LogPrefix := ''Runner''\<rparr> else cfg)\<rparr>"

record 'r RunResult =
  Results :: "'r list"
  Errors :: "string list"

text \<open>
  \<open>Run\<close> is a step function over the state of its goroutines, driven by a schedule: the
  list of the events in the order in which the scheduler lets them happen.

  The goroutine of \<open>Run\<close> itself is at \<open>AtLoop\<close> (the head of the \<^verbatim>\<open>for\<close> loop over the
  items), at \<open>Spawning\<close> (past \<^verbatim>\<open>workersWg.Add(1)\<close> and the send on \<open>throttle\<close>, before the
  \<^verbatim>\<open>go\<close> statement), at \<open>Waiting\<close> (in \<^verbatim>\<open>workersWg.Wait()\<close>), at \<open>Closed\<close> (the channels are
  closed, in \<^verbatim>\<open>messagesWG.Wait()\<close>) or \<open>Returned\<close>.

  A worker goroutine is \<open>Started\<close> (created, its defers not yet followed by the call),
  \<open>Running as\<close> (inside \<open>worker\<close>, with the sends \<open>as\<close> to come), \<open>Releasing\<close> (the worker has
  returned, the deferred receive from \<open>throttle\<close> is next), \<open>Finishing\<close> (the deferred
  \<^verbatim>\<open>workersWg.Done()\<close> is next) or \<open>Done\<close>.

  Each of the three collecting goroutines is \<open>Idle\<close> (in the receive of its \<^verbatim>\<open>range\<close>),
  \<open>Holding v\<close> (it has received \<open>v\<close> and not yet logged or appended it) or \<open>Exited\<close>. The
  channels are unbuffered, so a send happens when the collector is \<open>Idle\<close>.
\<close>

datatype main_pc = AtLoop | Spawning | Waiting | Closed | Returned

datatype 'r phase = Started | Running "'r action list" | Releasing | Finishing | Done

datatype 'a collector = Idle | Holding 'a | Exited

record ('t, 'r) run_state =
  pc :: main_pc
  pending :: "'t list"
  throttle :: nat
  goroutines :: "('t \<times> 'r phase) list"
  messagesC :: "string collector"
  resultsC :: "'r collector"
  errorsC :: "string collector"
  logged :: "string list"
  resultsList :: "'r list"
  errorsList :: "string list"

text \<open>
  The events. Of the goroutine of \<open>Run\<close>: \<open>Acquire\<close> is \<^verbatim>\<open>workersWg.Add(1)\<close> with, when
  the throttle is made, the send \<^verbatim>\<open>throttle <- 1\<close>, which waits while the buffer holds
  \<^verbatim>\<open>MaxConcurrency\<close> values; \<open>Go\<close> is the \<^verbatim>\<open>go\<close> statement on the next item; \<open>LoopExit\<close>
  leaves the loop; \<open>Close\<close> is the return of \<^verbatim>\<open>workersWg.Wait()\<close>, when every worker
  goroutine is done, with the three \<^verbatim>\<open>close\<close>; \<open>Return\<close> is the return of
  \<^verbatim>\<open>messagesWG.Wait()\<close>, when the three collectors have exited, and of \<open>Run\<close>.
  Of the worker goroutine \<open>i\<close>: \<open>Call i\<close> enters \<open>worker\<close>; \<open>Send i\<close> is its next send,
  taken by the collector of the channel; \<open>WorkerReturn i\<close> is the return of \<open>worker\<close>;
  \<open>Release i\<close> is the deferred \<^verbatim>\<open><-throttle\<close>, which is there when the throttle is made;
  \<open>WgDone i\<close> is the deferred \<^verbatim>\<open>workersWg.Done()\<close>.
  Of the collectors: \<open>LogMessage\<close>, \<open>AppendResult\<close> and \<open>AppendError\<close> are the bodies of the
  three \<^verbatim>\<open>range\<close> loops; \<open>ExitMessages\<close>, \<open>ExitResults\<close> and \<open>ExitErrors\<close> are their ends,
  on the closed channel.
\<close>

datatype event =
    Acquire | Go | LoopExit | Close | Return
  | Call nat | Send nat | WorkerReturn nat | Release nat | WgDone nat
  | LogMessage | AppendResult | AppendError
  | ExitMessages | ExitResults | ExitErrors

text \<open>\<open>throttle\<close> is made when \<^verbatim>\<open>MaxConcurrency > 0\<close> and is \<^verbatim>\<open>nil\<close> otherwise.\<close>

definition throttled :: "Runner \<Rightarrow> bool" where
  "throttled r = (MaxConcurrency (config r) > 0)"

definition setPhase :: "nat \<Rightarrow> 'r phase \<Rightarrow> ('t, 'r) run_state \<Rightarrow> ('t, 'r) run_state" where
  "setPhase i ph s = s\<lparr>goroutines := (goroutines s)[i := (fst (goroutines s ! i), ph)]\<rparr>"

definition phaseOf :: "('t, 'r) run_state \<Rightarrow> nat \<Rightarrow> 'r phase option" where
  "phaseOf s i = (if i < length (goroutines s) then Some (snd (goroutines s ! i)) else None)"

fun step ::
  "Runner \<Rightarrow> ('t, 'r) WorkerFunc \<Rightarrow> event \<Rightarrow> ('t, 'r) run_state \<Rightarrow> ('t, 'r) run_state option"
where
  "step r worker Acquire s =
     (if pc s = AtLoop \<and> pending s \<noteq> [] then
        (if throttled r then
           (if int (throttle s) < MaxConcurrency (config r)
            then Some (s\<lparr>pc := Spawning, throttle := Suc (throttle s)\<rparr>)
            else None)
         else Some (s\<lparr>pc := Spawning\<rparr>))
      else None)"
| "step r worker Go s =
     (if pc s = Spawning then
        (case pending s of
           [] \<Rightarrow> None
         | item # rest \<Rightarrow>
             Some (s\<lparr>pc := AtLoop, pending := rest,
                     goroutines := goroutines s @ [(item, Started)]\<rparr>))
      else None)"
| "step r worker LoopExit s =
     (if pc s = AtLoop \<and> pending s = [] then Some (s\<lparr>pc := Waiting\<rparr>) else None)"
| "step r worker Close s =
     (if pc s = Waiting \<and> (\<forall>g \<in> set (goroutines s). snd g = Done)
      then Some (s\<lparr>pc := Closed\<rparr>) else None)"
| "step r worker Return s =
     (if pc s = Closed \<and> messagesC s = Exited \<and> resultsC s = Exited \<and> errorsC s = Exited
      then Some (s\<lparr>pc := Returned\<rparr>) else None)"
| "step r worker (Call i) s =
     (case phaseOf s i of
        Some Started \<Rightarrow> Some (setPhase i (Running (worker (fst (goroutines s ! i)))) s)
      | _ \<Rightarrow> None)"
| "step r worker (Send i) s =
     (case phaseOf s i of
        Some (Running (SendMessage m # as)) \<Rightarrow>
          (if messagesC s = Idle
           then Some (setPhase i (Running as) (s\<lparr>messagesC := Holding m\<rparr>)) else None)
      | Some (Running (SendResult x # as)) \<Rightarrow>
          (if resultsC s = Idle
           then Some (setPhase i (Running as) (s\<lparr>resultsC := Holding x\<rparr>)) else None)
      | Some (Running (SendError e # as)) \<Rightarrow>
          (if errorsC s = Idle
           then Some (setPhase i (Running as) (s\<lparr>errorsC := Holding e\<rparr>)) else None)
      | _ \<Rightarrow> None)"
| "step r worker (WorkerReturn i) s =
     (case phaseOf s i of
        Some (Running []) \<Rightarrow>
          Some (setPhase i (if throttled r then Releasing else Finishing) s)
      | _ \<Rightarrow> None)"
| "step r worker (Release i) s =
     (case phaseOf s i of
        Some Releasing \<Rightarrow>
          (if throttle s > 0
           then Some (setPhase i Finishing (s\<lparr>throttle := throttle s - 1\<rparr>)) else None)
      | _ \<Rightarrow> None)"
| "step r worker (WgDone i) s =
     (case phaseOf s i of
        Some Finishing \<Rightarrow> Some (setPhase i Done s)
      | _ \<Rightarrow> None)"
| "step r worker LogMessage s =
     (case messagesC s of
        Holding m \<Rightarrow>
          Some (s\<lparr>messagesC := Idle,
                  logged := logged s @ [LogPrefix (config r) @ '': '' @ m]\<rparr>)
      | _ \<Rightarrow> None)"
| "step r worker AppendResult s =
     (case resultsC s of
        Holding x \<Rightarrow> Some (s\<lparr>resultsC := Idle, resultsList := resultsList s @ [x]\<rparr>)
      | _ \<Rightarrow> None)"
| "step r worker AppendError s =
     (case errorsC s of
        Holding e \<Rightarrow> Some (s\<lparr>errorsC := Idle, errorsList := errorsList s @ [e]\<rparr>)
      | _ \<Rightarrow> None)"
| "step r worker ExitMessages s =
     (if pc s = Closed \<and> messagesC s = Idle then Some (s\<lparr>messagesC := Exited\<rparr>) else None)"
| "step r worker ExitResults s =
     (if pc s = Closed \<and> resultsC s = Idle then Some (s\<lparr>resultsC := Exited\<rparr>) else None)"
| "step r worker ExitErrors s =
     (if pc s = Closed \<and> errorsC s = Idle then Some (s\<lparr>errorsC := Exited\<rparr>) else None)"

fun exec ::
  "Runner \<Rightarrow> ('t, 'r) WorkerFunc \<Rightarrow> event list \<Rightarrow> ('t, 'r) run_state
     \<Rightarrow> ('t, 'r) run_state option" where
  "exec r worker [] s = Some s"
| "exec r worker (e # es) s =
     (case step r worker e s of None \<Rightarrow> None | Some s' \<Rightarrow> exec r worker es s')"

text \<open>The state in which \<open>Run\<close> starts: returned at once on no items; otherwise the three
  collectors are started and the loop is reached. A collector that was never started is
  \<open>Exited\<close>.\<close>

definition start :: "'t list \<Rightarrow> ('t, 'r) run_state" where
  "start items =
     (if length items = 0 then
        \<lparr>pc = Returned, pending = [], throttle = 0, goroutines = [],
         messagesC = Exited, resultsC = Exited, errorsC = Exited,
         logged = [], resultsList = [], errorsList = []\<rparr>
      else
        \<lparr>pc = AtLoop, pending = items, throttle = 0, goroutines = [],
         messagesC = Idle, resultsC = Idle, errorsC = Idle,
         logged = [], resultsList = [], errorsList = []\<rparr>)"

text \<open>\<open>Run r worker items schedule\<close>: what \<open>Run\<close> returns under the schedule; \<open>None\<close> when
  the schedule is not one of the program (an event of it cannot happen) or stops before
  \<open>Run\<close> has returned.\<close>

definition Run ::
  "Runner \<Rightarrow> ('t, 'r) WorkerFunc \<Rightarrow> 't list \<Rightarrow> event list \<Rightarrow> 'r RunResult option" where
  "Run r worker items schedule =
     (case exec r worker schedule (start items) of
        None \<Rightarrow> None
      | Some s \<Rightarrow>
          if pc s = Returned
          then Some \<lparr>Results = resultsList s, Errors = errorsList s\<rparr>
          else None)"

section \<open>Definitions for the statements\<close>

subsection \<open>Small documents as token lists\<close>

text \<open>
  \<open>doc_nested\<close> is \<^verbatim>\<open><DIV1 N="1">a b<DIV2 N="A">c</DIV2></DIV1>\<close>, and \<open>doc_two a1 a2\<close> is
  \<^verbatim>\<open><DIV1 a1><DIV2 a2></DIV2></DIV1>\<close> for the attribute lists \<open>a1\<close> and \<open>a2\<close>.
\<close>

definition doc_nested :: "token list" where
  "doc_nested =
     [StartElement ''DIV1'' [(''N'', ''1'')], CharData ''a b'',
      StartElement ''DIV2'' [(''N'', ''A'')], CharData ''c'', EndElement ''DIV2'',
      EndElement ''DIV1'']"

definition doc_two :: "(string \<times> string) list \<Rightarrow> (string \<times> string) list \<Rightarrow> token list" where
  "doc_two a1 a2 =
     [StartElement ''DIV1'' a1, StartElement ''DIV2'' a2, EndElement ''DIV2'',
      EndElement ''DIV1'']"

definition structure0 :: CfrStructure where
  "structure0 =
     \<lparr>InternalId = 0, Id = [], TitleId = 7, TitleNumber = 1, DivType = [], DivLevel = 1,
      Identifier = [], NodeId = None, Heading = None, TextContent = None, WordCount = 0,
      ParentId = None, Path = [], CreatedAt = 0\<rparr>"

subsection \<open>Well-formed documents\<close>

text \<open>
  A well-formed document is the list of its top-level nodes: an element has a name,
  attributes and children; the other nodes are character data, comments, processing
  instructions and directives. For such a document the decoder yields \<open>tokensOfDoc doc\<close>,
  for every element its start tag, its children and its end tag in the order of the text
  (an empty-element tag yields both), and then \<^verbatim>\<open>io.EOF\<close>.
\<close>

datatype node =
    Element string "(string \<times> string) list" "node list"
  | Chars string
  | CommentNode string
  | ProcInstNode string string
  | DirectiveNode string

fun tokensOf :: "node \<Rightarrow> token list" and tokensOfDoc :: "node list \<Rightarrow> token list" where
  "tokensOf (Element n attrs children) =
     StartElement n attrs # tokensOfDoc children @ [EndElement n]"
| "tokensOf (Chars s) = [CharData s]"
| "tokensOf (CommentNode s) = [Comment s]"
| "tokensOf (ProcInstNode a b) = [ProcInst a b]"
| "tokensOf (DirectiveNode s) = [Directive s]"
| "tokensOfDoc [] = []"
| "tokensOfDoc (c # cs) = tokensOf c @ tokensOfDoc cs"

text \<open>
  A tag is the name and the attributes of an element. \<open>elementsOf doc\<close> lists the elements
  of the document in the order of their start tags, each as the tags of the elements that
  enclose it, outermost first, and its own tag.
\<close>

type_synonym tag = "string \<times> (string \<times> string) list"

fun elements :: "tag list \<Rightarrow> node \<Rightarrow> (tag list \<times> tag) list"
  and elementsIn :: "tag list \<Rightarrow> node list \<Rightarrow> (tag list \<times> tag) list" where
  "elements enclosing (Element n attrs children) =
     (enclosing, (n, attrs)) # elementsIn (enclosing @ [(n, attrs)]) children"
| "elements enclosing (Chars s) = []"
| "elements enclosing (CommentNode s) = []"
| "elements enclosing (ProcInstNode a b) = []"
| "elements enclosing (DirectiveNode s) = []"
| "elementsIn enclosing [] = []"
| "elementsIn enclosing (c # cs) = elements enclosing c @ elementsIn enclosing cs"

definition elementsOf :: "node list \<Rightarrow> (tag list \<times> tag) list" where
  "elementsOf doc = elementsIn [] doc"

text \<open>
  \<open>isDivName\<close> is the condition on a name in the words of the specification: four bytes,
  of which the first three are \<^verbatim>\<open>DIV\<close>. An element of the document is a
  \<open>hierarchyElement\<close> when it has such a name and so has every element that encloses it,
  from the outermost enclosing element of such a name inwards: it does not lie in a
  \<^verbatim>\<open>HEAD\<close> or in another element of a different name that itself lies in an element of
  such a name. \<open>ancestorIdentifiers\<close> are the values of \<^verbatim>\<open>N\<close> of the enclosing elements of
  such a name, outermost first; for a hierarchy element these are all hierarchy elements,
  its ancestors.
\<close>

definition isDivName :: "string \<Rightarrow> bool" where
  "isDivName n = (length n = 4 \<and> take 3 n = ''DIV'')"

definition isDivTag :: "tag \<Rightarrow> bool" where
  "isDivTag e = isDivName (fst e)"

definition hierarchyElement :: "tag list \<times> tag \<Rightarrow> bool" where
  "hierarchyElement x =
     (isDivTag (snd x) \<and> list_all isDivTag (dropWhile (\<lambda>e. \<not> isDivTag e) (fst x)))"

definition ancestorIdentifiers :: "tag list \<Rightarrow> string list" where
  "ancestorIdentifiers enclosing = map (\<lambda>e. attrN (snd e)) (filter isDivTag enclosing)"

text \<open>\<open>headsFlat doc\<close>: no \<^verbatim>\<open>HEAD\<close> element of the document lies in a \<^verbatim>\<open>HEAD\<close> element.\<close>

definition flat :: "(tag list \<times> tag) list \<Rightarrow> bool" where
  "flat es = list_all (\<lambda>x. fst (snd x) = ''HEAD'' \<longrightarrow> ''HEAD'' \<notin> fst ` set (fst x)) es"

definition headsFlat :: "node list \<Rightarrow> bool" where
  "headsFlat doc = flat (elementsOf doc)"

text \<open>
  \<open>inDiv enclosing\<close>: the enclosing elements are those of the content of a hierarchy
  element. \<open>row\<close> is what a structure records of its element and \<open>rowOf\<close> is what the
  element gives for it: the attributes \<^verbatim>\<open>TYPE\<close> and \<^verbatim>\<open>N\<close>, the level, and the path built
  from the identifiers of the ancestors and its own.
\<close>

definition inDiv :: "tag list \<Rightarrow> bool" where
  "inDiv enclosing =
     ((\<exists>e \<in> set enclosing. isDivTag e) \<and>
      list_all isDivTag (dropWhile (\<lambda>e. \<not> isDivTag e) enclosing))"

definition row :: "CfrStructure \<Rightarrow> string \<times> int \<times> string \<times> string" where
  "row s = (DivType s, DivLevel s, Identifier s, Path s)"

definition rowOf :: "tag list \<times> tag \<Rightarrow> string \<times> int \<times> string \<times> string" where
  "rowOf x =
     (attrTYPE (snd (snd x)), divLevelOf (fst (snd x)), attrN (snd (snd x)),
      foldl buildPath [] (ancestorIdentifiers (fst x) @ [attrN (snd (snd x))]))"

text \<open>
  \<open>doc_levels\<close> is
  \<^verbatim>\<open><ROOT><DIV1><HEAD>h</HEAD><P><DIV2/></P><DIVA N="x"/></DIV1></ROOT>\<close> and
  \<open>doc_head_in_head\<close> is
  \<^verbatim>\<open><DIV1 N="1"><HEAD><DIV1><HEAD/></DIV1></HEAD><DIV2 N="A"/></DIV1>\<close>.
\<close>

definition doc_levels :: "node list" where
  "doc_levels =
     [Element ''ROOT'' []
        [Element ''DIV1'' []
           [Element ''HEAD'' [] [Chars ''h''],
            Element ''P'' [] [Element ''DIV2'' [] []],
            Element ''DIVA'' [(''N'', ''x'')] []]]]"

definition doc_head_in_head :: "node list" where
  "doc_head_in_head =
     [Element ''DIV1'' [(''N'', ''1'')]
        [Element ''HEAD'' [] [Element ''DIV1'' [] [Element ''HEAD'' [] []]],
         Element ''DIV2'' [(''N'', ''A'')] []]]"

text \<open>\<^verbatim>\<open>strings.Join(ids, "/")\<close>.\<close>

fun joinIdentifiers :: "string list \<Rightarrow> string" where
  "joinIdentifiers [] = []"
| "joinIdentifiers [i] = i"
| "joinIdentifiers (i # j # rest) = i @ ''/'' @ joinIdentifiers (j # rest)"

subsection \<open>Measures on the states of the runner\<close>

fun isOutcome :: "'r action \<Rightarrow> bool" where
  "isOutcome (SendMessage m) = False"
| "isOutcome (SendResult x) = True"
| "isOutcome (SendError e) = True"

definition outcomes :: "'r action list \<Rightarrow> nat" where
  "outcomes as = length (filter isOutcome as)"

text \<open>The outcomes that a goroutine has still to send, the slots of \<open>throttle\<close> that it
  occupies, and whether it is inside \<open>worker\<close>.\<close>

fun owed :: "('t, 'r) WorkerFunc \<Rightarrow> 't \<times> 'r phase \<Rightarrow> nat" where
  "owed worker (item, Started) = outcomes (worker item)"
| "owed worker (item, Running as) = outcomes as"
| "owed worker (item, Releasing) = 0"
| "owed worker (item, Finishing) = 0"
| "owed worker (item, Done) = 0"

fun slot :: "'r phase \<Rightarrow> nat" where
  "slot Started = 1"
| "slot (Running as) = 1"
| "slot Releasing = 1"
| "slot Finishing = 0"
| "slot Done = 0"

fun executing :: "'r phase \<Rightarrow> nat" where
  "executing (Running as) = 1"
| "executing Started = 0"
| "executing Releasing = 0"
| "executing Finishing = 0"
| "executing Done = 0"

fun held :: "'a collector \<Rightarrow> nat" where
  "held (Holding v) = 1"
| "held Idle = 0"
| "held Exited = 0"

definition accounted ::
  "('t, 'r) WorkerFunc \<Rightarrow> 't list \<Rightarrow> ('t, 'r) run_state \<Rightarrow> bool" where
  "accounted worker items s =
     (length (resultsList s) + length (errorsList s) + held (resultsC s) + held (errorsC s)
        + sum_list (map (owed worker) (goroutines s))
        + sum_list (map (\<lambda>item. outcomes (worker item)) (pending s))
      = sum_list (map (\<lambda>item. outcomes (worker item)) items))"

definition shaped :: "Runner \<Rightarrow> ('t, 'r) run_state \<Rightarrow> bool" where
  "shaped r s =
     ((pc s = Spawning \<longrightarrow> pending s \<noteq> []) \<and>
      (pc s \<in> {Waiting, Closed, Returned} \<longrightarrow> pending s = []) \<and>
      (pc s \<in> {Closed, Returned} \<longrightarrow> snd ` set (goroutines s) \<subseteq> {Done}) \<and>
      (pc s = Returned \<longrightarrow>
         messagesC s = Exited \<and> resultsC s = Exited \<and> errorsC s = Exited) \<and>
      (pc s \<in> {AtLoop, Spawning, Waiting} \<longrightarrow>
         messagesC s \<noteq> Exited \<and> resultsC s \<noteq> Exited \<and> errorsC s \<noteq> Exited) \<and>
      (\<not> throttled r \<longrightarrow> Releasing \<notin> snd ` set (goroutines s)))"

definition slotted :: "Runner \<Rightarrow> ('t, 'r) run_state \<Rightarrow> bool" where
  "slotted r s =
     (throttle s = (if pc s = Spawning then 1 else 0) + sum_list (map (\<lambda>g. slot (snd g)) (goroutines s)) \<and>
      int (throttle s) \<le> MaxConcurrency (config r))"

text \<open>What an event of the worker goroutine \<open>i\<close> does to the state.\<close>

definition workerEvents :: "nat \<Rightarrow> event set" where
  "workerEvents i = {Call i, Send i, WorkerReturn i, Release i, WgDone i}"

fun gfuel :: "('t, 'r) WorkerFunc \<Rightarrow> 't \<times> 'r phase \<Rightarrow> nat" where
  "gfuel worker (item, Started) = 2 * length (worker item) + 4"
| "gfuel worker (item, Running as) = 2 * length as + 3"
| "gfuel worker (item, Releasing) = 2"
| "gfuel worker (item, Finishing) = 1"
| "gfuel worker (item, Done) = 0"

fun cfuel :: "'a collector \<Rightarrow> nat" where
  "cfuel (Holding v) = 2"
| "cfuel Idle = 1"
| "cfuel Exited = 0"

fun pcfuel :: "main_pc \<Rightarrow> nat" where
  "pcfuel AtLoop = 3"
| "pcfuel Spawning = 2"
| "pcfuel Waiting = 2"
| "pcfuel Closed = 1"
| "pcfuel Returned = 0"

definition fuel :: "('t, 'r) WorkerFunc \<Rightarrow> ('t, 'r) run_state \<Rightarrow> nat" where
  "fuel worker s =
     pcfuel (pc s) + sum_list (map (\<lambda>item. 2 * length (worker item) + 6) (pending s))
       + sum_list (map (gfuel worker) (goroutines s))
       + cfuel (messagesC s) + cfuel (resultsC s) + cfuel (errorsC s)"

definition dispatched :: "'t list \<Rightarrow> ('t, 'r) run_state \<Rightarrow> bool" where
  "dispatched items s = (map fst (goroutines s) @ pending s = items)"

text \<open>A worker that fails on item 0 and succeeds on every other item, after one message;
  and a schedule of \<open>Run\<close> on the items 0 and 1 with one slot.\<close>

definition demo_worker :: "(nat, string) WorkerFunc" where
  "demo_worker n =
     (if n = 0 then [SendMessage ''start'', SendError ''failed'']
      else [SendMessage ''start'', SendResult ''done''])"

definition demo_schedule :: "event list" where
  "demo_schedule =
     [Acquire, Go, Call 0, Send 0, LogMessage, Send 0, WorkerReturn 0, Release 0,
      Acquire, Go, LoopExit, Call 1, Send 1, Send 1, AppendResult, AppendError, LogMessage,
      WorkerReturn 1, Release 1, WgDone 0, WgDone 1, Close,
      ExitMessages, ExitErrors, ExitResults, Return]"

definition negative_schedule :: "event list" where
  "negative_schedule =
     [Acquire, Go, Call 0, Send 0, LogMessage, Send 0, AppendResult, WorkerReturn 0, WgDone 0,
      LoopExit, Close, ExitMessages, ExitResults, ExitErrors, Return]"

section \<open>Properties of the parser\<close>

subsection \<open>Evaluation on small documents\<close>

lemma Parse_doc_nested:
  "Parse (NewCfrParser 7 1) (doc_nested, EOF) =
     Inr \<lparr>Structures =
            [structure0\<lparr>Identifier := ''1'', TextContent := Some ''a b'', WordCount := 2,
               Path := ''1''\<rparr>,
             structure0\<lparr>DivLevel := 2, Identifier := ''A'', TextContent := Some ''c'',
               WordCount := 1, Path := ''1/A''\<rparr>],
          TotalWords = 3\<rparr>"
  by code_simp

lemma isDivElement_iff: "isDivElement n \<longleftrightarrow> length n = 4 \<and> take 3 n = ''DIV''"
  by (auto simp: isDivElement_def HasPrefix_def eval_nat_numeral)

lemma TrimSpace_Nil: "TrimSpace [] = []"
  by (simp add: TrimSpace_def)

lemma attrN_single: "attrN [(''N'', v)] = v"
  by (simp add: attrN_def)

lemma attrN_Nil: "attrN [] = []"
  by (simp add: attrN_def)

lemma Parse_doc_two:
  "Parse p (doc_two a1 a2, EOF) =
     Inr \<lparr>Structures =
            [newStructure p (attrTYPE a1) 1 (attrN a1) (attrNODE a1) None [] None (attrN a1),
             newStructure p (attrTYPE a2) 2 (attrN a2) (attrNODE a2) None [] None
               (buildPath (attrN a1) (attrN a2))],
          TotalWords = 0\<rparr>"
  by (simp add: doc_two_def Parse_def parseDivElement.simps isDivElement_def HasPrefix_def
      divLevelOf_def TrimSpace_Nil countWords_def newStructure_def buildPath_def)

text \<open>The parse of \<^verbatim>\<open><DIV1><DIV2 N="A"></DIV2></DIV1>\<close>, whose outer element has no \<^verbatim>\<open>N\<close>.\<close>

lemma Parse_doc_two_no_N:
  "Parse (NewCfrParser 7 1) (doc_two [] [(''N'', ''A'')], EOF) =
     Inr \<lparr>Structures =
            [structure0, structure0\<lparr>DivLevel := 2, Identifier := ''A'', Path := ''A''\<rparr>],
          TotalWords = 0\<rparr>"
  by (simp add: Parse_doc_two attrN_single attrN_Nil attrTYPE_def attrNODE_def buildPath_def
      newStructure_def structure0_def NewCfrParser_def countWords_def)

subsection \<open>Word counts\<close>

lemma fold_WordCount:
  "fold (\<lambda>child totalWords. totalWords + WordCount child) cs w =
     w + sum_list (map WordCount cs)"
  by (induction cs arbitrary: w) simp_all

lemma parseDivElement_words:
  "\<exists>ts' root descendants.
     parseDivElement p ts name attrs divLevel parentId parentPath =
       (ts', root # descendants, WordCount root + sum_list (map WordCount descendants))"
  by (cases "divLoop p ts name (buildPath parentPath (attrN attrs)) None [] []")
     (simp add: parseDivElement.simps fold_WordCount newStructure_def)

lemma parseDivElement_words_sum:
  "parseDivElement p ts name attrs divLevel parentId parentPath = (ts', structures, words) \<Longrightarrow>
     words = sum_list (map WordCount structures)"
  using parseDivElement_words [of p ts name attrs divLevel parentId parentPath] by auto

lemma ParseLoop_words:
  "ParseLoop p ts err structures totalWords = Inr r \<Longrightarrow>
   totalWords = sum_list (map WordCount structures) \<Longrightarrow>
   TotalWords r = sum_list (map WordCount (Structures r))"
proof (induction p ts err structures totalWords rule: ParseLoop.induct)
  case (1 p err structures totalWords)
  then show ?case by (auto split: if_splits)
next
  case (2 p n attrs ts err structures totalWords)
  show ?case
  proof (cases "isDivElement n")
    case True
    obtain ts' divStructures words where
      c: "parseDivElement p ts n attrs (divLevelOf n) None [] = (ts', divStructures, words)"
      by (cases "parseDivElement p ts n attrs (divLevelOf n) None []")
    have w: "words = sum_list (map WordCount divStructures)"
      using c by (rule parseDivElement_words_sum)
    show ?thesis
      using "2.IH"(1) [OF True c [symmetric] refl] "2.prems" True c w by simp
  next
    case False
    then show ?thesis using 2 by simp
  qed
qed simp_all

text \<open>
  Claim C3. When \<open>Parse\<close> returns a result, its total word count is the sum of
  \<open>WordCount\<close> over the structures of the flattened list; and every call of
  \<open>parseDivElement\<close>, so every parsed subtree, returns the structure of the root followed
  by those of its descendants, with a word count that is the root's own \<open>WordCount\<close> plus
  the sum of \<open>WordCount\<close> over the descendants.
\<close>

theorem Parse_word_count_additive:
  "(Parse p decoder = Inr r \<longrightarrow> TotalWords r = sum_list (map WordCount (Structures r))) \<and>
   (\<exists>ts' root descendants.
      parseDivElement p ts name attrs divLevel parentId parentPath =
        (ts', root # descendants, WordCount root + sum_list (map WordCount descendants)))"
proof
  show "Parse p decoder = Inr r \<longrightarrow> TotalWords r = sum_list (map WordCount (Structures r))"
    using ParseLoop_words [of p "fst decoder" "snd decoder" "[]" 0 r]
    by (simp add: Parse_def)
  show "\<exists>ts' root descendants.
      parseDivElement p ts name attrs divLevel parentId parentPath =
        (ts', root # descendants, WordCount root + sum_list (map WordCount descendants))"
    by (rule parseDivElement_words)
qed

theorem Parse_word_count_additive_witness:
  "\<exists>r. Parse (NewCfrParser 7 1) (doc_nested, EOF) = Inr r \<and> TotalWords r = 3 \<and>
       TotalWords r = sum_list (map WordCount (Structures r))"
  using Parse_word_count_additive [of "NewCfrParser 7 1" "(doc_nested, EOF)", THEN conjunct1]
  by (simp add: Parse_doc_nested)

subsection \<open>Errors of the tokenizer\<close>

lemma ParseLoop_error:
  "err \<noteq> EOF \<Longrightarrow> ParseLoop p ts err structures totalWords = Inl (ErrorParsingXML err)"
proof (induction p ts err structures totalWords rule: ParseLoop.induct)
  case (2 p n attrs ts err structures totalWords)
  then show ?case
    by (cases "parseDivElement p ts n attrs (divLevelOf n) None []") simp
qed simp_all

text \<open>
  Claim C6. When the token stream of the document ends in an error of the tokenizer (any
  error other than \<^verbatim>\<open>io.EOF\<close>; an element left open at the end of the text is one),
  \<open>Parse\<close> fails with that error and returns no result, so no list of structures.
\<close>

theorem Parse_malformed_fails:
  "err \<noteq> EOF \<Longrightarrow> Parse p (ts, err) = Inl (ErrorParsingXML err)"
  by (simp add: Parse_def ParseLoop_error)

theorem Parse_malformed_fails_witness:
  "SyntaxError ''unexpected EOF'' \<noteq> EOF \<and>
   Parse (NewCfrParser 7 1)
       ([StartElement ''DIV1'' [(''N'', ''1'')], CharData ''a b''], SyntaxError ''unexpected EOF'') =
     Inl (ErrorParsingXML (SyntaxError ''unexpected EOF''))"
  using Parse_malformed_fails [of "SyntaxError ''unexpected EOF''" "NewCfrParser 7 1"
      "[StartElement ''DIV1'' [(''N'', ''1'')], CharData ''a b'']"]
  by simp

subsection \<open>Determinism\<close>

text \<open>
  Claim C9. \<open>Parse\<close> reads nothing but the two fields of its receiver and the tokens of
  the document: two parsers with the same \<open>titleId\<close> and \<open>titleNumber\<close>, run on the same
  document, return equal results (the same structures with the same fields in the same
  order and the same total), or the same error.
\<close>

theorem Parse_deterministic:
  "titleId p = titleId q \<Longrightarrow> titleNumber p = titleNumber q \<Longrightarrow>
     Parse p decoder = Parse q decoder"
  by (cases p, cases q) simp

theorem Parse_deterministic_witness:
  "titleId (NewCfrParser 7 1) = titleId \<lparr>titleId = 7, titleNumber = 1\<rparr> \<and>
   titleNumber (NewCfrParser 7 1) = titleNumber \<lparr>titleId = 7, titleNumber = 1\<rparr> \<and>
   Parse (NewCfrParser 7 1) (doc_nested, EOF) =
     Parse \<lparr>titleId = 7, titleNumber = 1\<rparr> (doc_nested, EOF)"
  using Parse_deterministic [of "NewCfrParser 7 1" "\<lparr>titleId = 7, titleNumber = 1\<rparr>"
      "(doc_nested, EOF)"]
  by (simp add: NewCfrParser_def)

subsection \<open>The parse of a well-formed document\<close>

text \<open>
  On the tokens of a node followed by other tokens, each loop of the parser reads the node
  and goes on with the tokens after it: \<open>extractTextContent\<close> always, the loop of a
  heading when the node holds no \<^verbatim>\<open>HEAD\<close> element, and the loops of \<open>parseDivElement\<close> and
  of \<open>Parse\<close> when no \<^verbatim>\<open>HEAD\<close> element lies in a \<^verbatim>\<open>HEAD\<close> element; the last two append
  the structures of the hierarchy elements of the node, in the order of the document.
\<close>

lemma isDivElement_isDivName: "isDivElement n = isDivName n"
  by (simp add: isDivElement_iff isDivName_def)

lemma elements_prefix:
  "x \<in> set (elements ch t) \<Longrightarrow> \<exists>suf. fst x = ch @ suf"
  "x \<in> set (elementsIn ch cs) \<Longrightarrow> \<exists>suf. fst x = ch @ suf"
  by (induction ch t and ch cs rule: elements_elementsIn.induct) auto

lemma flat_append: "flat (xs @ ys) \<longleftrightarrow> flat xs \<and> flat ys"
  by (simp add: flat_def)

lemma flat_Cons: "flat (x # xs) \<longleftrightarrow>
  (fst (snd x) = ''HEAD'' \<longrightarrow> ''HEAD'' \<notin> fst ` set (fst x)) \<and> flat xs"
  by (simp add: flat_def)

lemma extract_tokens:
  "\<exists>acc'. extractTextContent (tokensOf t @ ts) name acc = extractTextContent ts name acc'"
  "\<exists>acc'. extractTextContent (tokensOfDoc cs @ ts) name acc = extractTextContent ts name acc'"
proof (induction t and cs arbitrary: ts name acc and ts name acc rule: tokensOf_tokensOfDoc.induct)
  case (1 n attrs children)
  obtain acc' where
    "extractTextContent (tokensOfDoc children @ EndElement n # ts) n acc =
       extractTextContent (EndElement n # ts) n acc'"
    using "1.IH" [of "EndElement n # ts" n acc] by blast
  then show ?case by auto
next
  case (7 c cs)
  obtain acc1 where a: "extractTextContent (tokensOf c @ tokensOfDoc cs @ ts) name acc
      = extractTextContent (tokensOfDoc cs @ ts) name acc1"
    using "7.IH"(1) [of "tokensOfDoc cs @ ts" name acc] by blast
  obtain acc2 where "extractTextContent (tokensOfDoc cs @ ts) name acc1
      = extractTextContent ts name acc2"
    using "7.IH"(2) [of ts name acc1] by blast
  then show ?case using a by auto
qed auto

lemma head_tokens:
  "''HEAD'' \<in> fst ` set ch \<Longrightarrow> flat (elements ch t) \<Longrightarrow>
     \<exists>h'. headLoop (tokensOf t @ ts) h = headLoop ts h'"
  "''HEAD'' \<in> fst ` set ch \<Longrightarrow> flat (elementsIn ch cs) \<Longrightarrow>
     \<exists>h'. headLoop (tokensOfDoc cs @ ts) h = headLoop ts h'"
proof (induction ch t and ch cs arbitrary: ts h and ts h rule: elements_elementsIn.induct)
  case (1 enclosing n attrs children)
  have n: "n \<noteq> ''HEAD''"
    using "1.prems" by (auto simp: flat_Cons)
  have "flat (elementsIn (enclosing @ [(n, attrs)]) children)"
    using "1.prems"(2) by (simp add: flat_Cons)
  moreover have "''HEAD'' \<in> fst ` set (enclosing @ [(n, attrs)])"
    using "1.prems"(1) by auto
  ultimately obtain h' where
    "headLoop (tokensOfDoc children @ EndElement n # ts) h = headLoop (EndElement n # ts) h'"
    using "1.IH" [of "EndElement n # ts" h] by blast
  then show ?case using n by auto
next
  case (7 enclosing c cs)
  have f: "flat (elements enclosing c)" "flat (elementsIn enclosing cs)"
    using "7.prems"(2) by (simp_all add: flat_append)
  obtain h1 where a: "headLoop (tokensOf c @ tokensOfDoc cs @ ts) h
      = headLoop (tokensOfDoc cs @ ts) h1"
    using "7.IH"(1) [OF "7.prems"(1) f(1), of "tokensOfDoc cs @ ts" h] by blast
  obtain h2 where "headLoop (tokensOfDoc cs @ ts) h1 = headLoop ts h2"
    using "7.IH"(2) [OF "7.prems"(1) f(2), of ts h1] by blast
  then show ?case using a by auto
qed auto

lemma hierarchyElement_blocked:
  assumes "inDiv ch" and "\<not> isDivTag e"
  shows "filter hierarchyElement (elementsIn (ch @ [e]) cs) = []"
proof -
  obtain d where d: "d \<in> set ch" "isDivTag d"
    using assms(1) by (auto simp: inDiv_def)
  have "\<not> hierarchyElement x" if mem: "x \<in> set (elementsIn (ch @ [e]) cs)" for x
  proof -
    obtain suf where s: "fst x = ch @ e # suf"
      using elements_prefix(2) [OF mem] by auto
    have "dropWhile (\<lambda>e. \<not> isDivTag e) (ch @ e # suf)
        = dropWhile (\<lambda>e. \<not> isDivTag e) ch @ e # suf"
      using d by (intro dropWhile_append1) auto
    then show ?thesis
      using assms(2) s by (simp add: hierarchyElement_def)
  qed
  then show ?thesis
    by (simp add: filter_empty_conv)
qed

lemma inDiv_snoc: "inDiv ch \<Longrightarrow> isDivTag e \<Longrightarrow> inDiv (ch @ [e])"
proof -
  assume a: "inDiv ch" and e: "isDivTag e"
  then obtain d where d: "d \<in> set ch" "isDivTag d"
    by (auto simp: inDiv_def)
  have "dropWhile (\<lambda>e. \<not> isDivTag e) (ch @ [e]) = dropWhile (\<lambda>e. \<not> isDivTag e) ch @ [e]"
    using d by (intro dropWhile_append1) auto
  then show ?thesis
    using a e by (auto simp: inDiv_def)
qed

lemma inDiv_first: "\<forall>e \<in> set ch. \<not> isDivTag e \<Longrightarrow> isDivTag e \<Longrightarrow> inDiv (ch @ [e])"
proof -
  assume a: "\<forall>e \<in> set ch. \<not> isDivTag e" and e: "isDivTag e"
  have "dropWhile (\<lambda>e. \<not> isDivTag e) (ch @ [e]) = dropWhile (\<lambda>e. \<not> isDivTag e) [e]"
    using a by (intro dropWhile_append2) auto
  then show ?thesis
    using e by (auto simp: inDiv_def)
qed

lemma hierarchyElement_inDiv:
  "inDiv ch \<Longrightarrow> hierarchyElement (ch, e) = isDivTag e"
  by (simp add: hierarchyElement_def inDiv_def)

lemma hierarchyElement_top:
  "\<forall>e \<in> set ch. \<not> isDivTag e \<Longrightarrow> hierarchyElement (ch, e) = isDivTag e"
proof -
  assume a: "\<forall>e \<in> set ch. \<not> isDivTag e"
  have e0: "dropWhile (\<lambda>e. \<not> isDivTag e) ch = []"
    using a by simp
  show ?thesis
    unfolding hierarchyElement_def fst_conv snd_conv e0 by simp
qed

lemma ancestorIdentifiers_snoc:
  "isDivTag e \<Longrightarrow> ancestorIdentifiers (ch @ [e]) = ancestorIdentifiers ch @ [attrN (snd e)]"
  by (simp add: ancestorIdentifiers_def)

lemma ancestorIdentifiers_top:
  "\<forall>e \<in> set ch. \<not> isDivTag e \<Longrightarrow> ancestorIdentifiers ch = []"
  by (simp add: ancestorIdentifiers_def)

lemma div_tokens:
  "inDiv ch \<Longrightarrow> flat (elements ch t) \<Longrightarrow> path = foldl buildPath [] (ancestorIdentifiers ch) \<Longrightarrow>
     \<exists>h' tx' S. divLoop p (tokensOf t @ ts) name path h tx acc
                   = divLoop p ts name path h' tx' (acc @ S) \<and>
                 map row S = map rowOf (filter hierarchyElement (elements ch t))"
  "inDiv ch \<Longrightarrow> flat (elementsIn ch cs) \<Longrightarrow> path = foldl buildPath [] (ancestorIdentifiers ch) \<Longrightarrow>
     \<exists>h' tx' S. divLoop p (tokensOfDoc cs @ ts) name path h tx acc
                   = divLoop p ts name path h' tx' (acc @ S) \<and>
                 map row S = map rowOf (filter hierarchyElement (elementsIn ch cs))"
proof (induction ch t and ch cs arbitrary: ts name path h tx acc and ts name path h tx acc
       rule: elements_elementsIn.induct)
  case (1 enclosing n attrs children)
  let ?ch = "enclosing @ [(n, attrs)]"
  have fl: "flat (elementsIn ?ch children)"
    using "1.prems"(2) by (simp add: flat_Cons)
  show ?case
  proof (cases "n = ''HEAD''")
    case True
    have nd: "\<not> isDivTag (n, attrs)"
      using True by (simp add: isDivTag_def isDivName_def)
    have "''HEAD'' \<in> fst ` set ?ch"
      using True by force
    then obtain h' where
      "headLoop (tokensOfDoc children @ EndElement n # ts) [] = headLoop (EndElement n # ts) h'"
      using head_tokens(2) [OF _ fl, of "EndElement n # ts" "[]"] by blast
    then have "divLoop p (tokensOf (Element n attrs children) @ ts) name path h tx acc
        = divLoop p ts name path (Some (TrimSpace h')) tx (acc @ [])"
      using True by simp
    moreover have "filter hierarchyElement (elements enclosing (Element n attrs children)) = []"
      using hierarchyElement_blocked [OF "1.prems"(1) nd] nd
      by (simp add: hierarchyElement_inDiv [OF "1.prems"(1)])
    ultimately show ?thesis
      by (metis list.simps(8))
  next
    case notHead: False
    show ?thesis
    proof (cases "isDivElement n")
      case True
      then have d: "isDivTag (n, attrs)"
        by (simp add: isDivTag_def isDivElement_isDivName)
      let ?path = "buildPath path (attrN attrs)"
      have p: "?path = foldl buildPath [] (ancestorIdentifiers ?ch)"
        using "1.prems"(3) d by (simp add: ancestorIdentifiers_snoc)
      obtain h' tx' S where
        l: "divLoop p (tokensOfDoc children @ EndElement n # ts) n ?path None [] []
              = divLoop p (EndElement n # ts) n ?path h' tx' ([] @ S)"
        and r: "map row S = map rowOf (filter hierarchyElement (elementsIn ?ch children))"
        using "1.IH" [OF inDiv_snoc [OF "1.prems"(1) d] fl p, of "EndElement n # ts" n None "[]" "[]"]
        by blast
      let ?s = "newStructure p (attrTYPE attrs) (divLevelOf n) (attrN attrs) (attrNODE attrs) h'
                  (TrimSpace tx') None ?path"
      have "\<exists>w. parseDivElement p (tokensOfDoc children @ EndElement n # ts) n attrs
                   (divLevelOf n) None path = (ts, ?s # S, w)"
        using l by (simp add: parseDivElement.simps)
      then have "divLoop p (tokensOf (Element n attrs children) @ ts) name path h tx acc
          = divLoop p ts name path h tx (acc @ ?s # S)"
        using notHead True by auto
      moreover have "row ?s = rowOf (enclosing, (n, attrs))"
        using "1.prems"(3) by (simp add: row_def rowOf_def newStructure_def)
      then have "map row (?s # S)
          = map rowOf (filter hierarchyElement (elements enclosing (Element n attrs children)))"
        using r d by (simp add: hierarchyElement_inDiv [OF "1.prems"(1)])
      ultimately show ?thesis
        by blast
    next
      case False
      then have nd: "\<not> isDivTag (n, attrs)"
        by (simp add: isDivTag_def isDivElement_isDivName)
      obtain tx' where
        "extractTextContent (tokensOfDoc children @ EndElement n # ts) n tx
           = extractTextContent (EndElement n # ts) n tx'"
        using extract_tokens(2) [of children "EndElement n # ts" n tx] by blast
      then have "divLoop p (tokensOf (Element n attrs children) @ ts) name path h tx acc
          = divLoop p ts name path h tx' (acc @ [])"
        using notHead False by simp
      moreover have "filter hierarchyElement (elements enclosing (Element n attrs children)) = []"
        using hierarchyElement_blocked [OF "1.prems"(1) nd] nd
        by (simp add: hierarchyElement_inDiv [OF "1.prems"(1)])
      ultimately show ?thesis
        by (metis list.simps(8))
    qed
  qed
next
  case (2 enclosing s)
  show ?case
    by (cases "TrimSpace s \<noteq> []") (auto intro: exI [of _ "[]"])
next
  case (3 enclosing s)
  show ?case by (auto intro: exI [of _ "[]"])
next
  case (4 enclosing a b)
  show ?case by (auto intro: exI [of _ "[]"])
next
  case (5 enclosing s)
  show ?case by (auto intro: exI [of _ "[]"])
next
  case (6 enclosing)
  show ?case by (auto intro: exI [of _ "[]"])
next
  case (7 enclosing c cs)
  have f: "flat (elements enclosing c)" "flat (elementsIn enclosing cs)"
    using "7.prems"(2) by (simp_all add: flat_append)
  obtain h1 tx1 S1 where
    a: "divLoop p (tokensOf c @ tokensOfDoc cs @ ts) name path h tx acc
          = divLoop p (tokensOfDoc cs @ ts) name path h1 tx1 (acc @ S1)"
    and r1: "map row S1 = map rowOf (filter hierarchyElement (elements enclosing c))"
    using "7.IH"(1) [OF "7.prems"(1) f(1) "7.prems"(3), of "tokensOfDoc cs @ ts" name h tx acc]
    by blast
  obtain h2 tx2 S2 where
    b: "divLoop p (tokensOfDoc cs @ ts) name path h1 tx1 (acc @ S1)
          = divLoop p ts name path h2 tx2 ((acc @ S1) @ S2)"
    and r2: "map row S2 = map rowOf (filter hierarchyElement (elementsIn enclosing cs))"
    using "7.IH"(2) [OF "7.prems"(1) f(2) "7.prems"(3), of ts name h1 tx1 "acc @ S1"]
    by blast
  have "divLoop p (tokensOfDoc (c # cs) @ ts) name path h tx acc
      = divLoop p ts name path h2 tx2 (acc @ (S1 @ S2))"
    using a b by simp
  moreover have "map row (S1 @ S2)
      = map rowOf (filter hierarchyElement (elementsIn enclosing (c # cs)))"
    using r1 r2 by simp
  ultimately show ?case
    by blast
qed

lemma top_tokens:
  "\<forall>e \<in> set ch. \<not> isDivTag e \<Longrightarrow> flat (elements ch t) \<Longrightarrow>
     \<exists>S w'. ParseLoop p (tokensOf t @ ts) err acc w = ParseLoop p ts err (acc @ S) w' \<and>
            map row S = map rowOf (filter hierarchyElement (elements ch t))"
  "\<forall>e \<in> set ch. \<not> isDivTag e \<Longrightarrow> flat (elementsIn ch cs) \<Longrightarrow>
     \<exists>S w'. ParseLoop p (tokensOfDoc cs @ ts) err acc w = ParseLoop p ts err (acc @ S) w' \<and>
            map row S = map rowOf (filter hierarchyElement (elementsIn ch cs))"
proof (induction ch t and ch cs arbitrary: ts acc w and ts acc w
       rule: elements_elementsIn.induct)
  case (1 enclosing n attrs children)
  let ?ch = "enclosing @ [(n, attrs)]"
  have fl: "flat (elementsIn ?ch children)"
    using "1.prems"(2) by (simp add: flat_Cons)
  show ?case
  proof (cases "isDivElement n")
    case True
    then have d: "isDivTag (n, attrs)"
      by (simp add: isDivTag_def isDivElement_isDivName)
    let ?path = "buildPath [] (attrN attrs)"
    have p: "?path = foldl buildPath [] (ancestorIdentifiers ?ch)"
      using d by (simp add: ancestorIdentifiers_snoc ancestorIdentifiers_top [OF "1.prems"(1)])
    obtain h' tx' S where
      l: "divLoop p (tokensOfDoc children @ EndElement n # ts) n ?path None [] []
            = divLoop p (EndElement n # ts) n ?path h' tx' ([] @ S)"
      and r: "map row S = map rowOf (filter hierarchyElement (elementsIn ?ch children))"
      using div_tokens(2) [OF inDiv_first [OF "1.prems"(1) d] fl p,
          of p "EndElement n # ts" n None "[]" "[]"]
      by blast
    let ?s = "newStructure p (attrTYPE attrs) (divLevelOf n) (attrN attrs) (attrNODE attrs) h'
                (TrimSpace tx') None ?path"
    have "\<exists>w. parseDivElement p (tokensOfDoc children @ EndElement n # ts) n attrs
                 (divLevelOf n) None [] = (ts, ?s # S, w)"
      using l by (simp add: parseDivElement.simps)
    then have "\<exists>w'. ParseLoop p (tokensOf (Element n attrs children) @ ts) err acc w
        = ParseLoop p ts err (acc @ ?s # S) w'"
      using True by auto
    moreover have "row ?s = rowOf (enclosing, (n, attrs))"
      by (simp add: row_def rowOf_def newStructure_def ancestorIdentifiers_top [OF "1.prems"(1)])
    then have "map row (?s # S)
        = map rowOf (filter hierarchyElement (elements enclosing (Element n attrs children)))"
      using r d by (simp add: hierarchyElement_top [OF "1.prems"(1)])
    ultimately show ?thesis
      by blast
  next
    case False
    then have nd: "\<not> isDivTag (n, attrs)"
      by (simp add: isDivTag_def isDivElement_isDivName)
    have top: "\<forall>e \<in> set ?ch. \<not> isDivTag e"
      using "1.prems"(1) nd by simp
    obtain S w' where
      l: "ParseLoop p (tokensOfDoc children @ EndElement n # ts) err acc w
            = ParseLoop p (EndElement n # ts) err (acc @ S) w'"
      and r: "map row S = map rowOf (filter hierarchyElement (elementsIn ?ch children))"
      using "1.IH" [OF top fl, of "EndElement n # ts" acc w] by blast
    have "ParseLoop p (tokensOf (Element n attrs children) @ ts) err acc w
        = ParseLoop p ts err (acc @ S) w'"
      using False l by simp
    moreover have "map row S
        = map rowOf (filter hierarchyElement (elements enclosing (Element n attrs children)))"
      using r nd by (simp add: hierarchyElement_top [OF "1.prems"(1)])
    ultimately show ?thesis
      by blast
  qed
next
  case (7 enclosing c cs)
  have f: "flat (elements enclosing c)" "flat (elementsIn enclosing cs)"
    using "7.prems"(2) by (simp_all add: flat_append)
  obtain S1 w1 where
    a: "ParseLoop p (tokensOf c @ tokensOfDoc cs @ ts) err acc w
          = ParseLoop p (tokensOfDoc cs @ ts) err (acc @ S1) w1"
    and r1: "map row S1 = map rowOf (filter hierarchyElement (elements enclosing c))"
    using "7.IH"(1) [OF "7.prems"(1) f(1), of "tokensOfDoc cs @ ts" acc w] by blast
  obtain S2 w2 where
    b: "ParseLoop p (tokensOfDoc cs @ ts) err (acc @ S1) w1
          = ParseLoop p ts err ((acc @ S1) @ S2) w2"
    and r2: "map row S2 = map rowOf (filter hierarchyElement (elementsIn enclosing cs))"
    using "7.IH"(2) [OF "7.prems"(1) f(2), of ts "acc @ S1" w1] by blast
  have "ParseLoop p (tokensOfDoc (c # cs) @ ts) err acc w
      = ParseLoop p ts err (acc @ (S1 @ S2)) w2"
    using a b by simp
  moreover have "map row (S1 @ S2)
      = map rowOf (filter hierarchyElement (elementsIn enclosing (c # cs)))"
    using r1 r2 by simp
  ultimately show ?case
    by blast
qed (auto intro: exI [of _ "[]"])

lemma Parse_document:
  assumes "headsFlat doc"
  shows "\<exists>r. Parse p (tokensOfDoc doc, EOF) = Inr r \<and>
             map row (Structures r) = map rowOf (filter hierarchyElement (elementsOf doc))"
proof -
  obtain S w' where
    "ParseLoop p (tokensOfDoc doc @ []) EOF [] 0 = ParseLoop p [] EOF ([] @ S) w'"
    and "map row S = map rowOf (filter hierarchyElement (elementsIn [] doc))"
    using top_tokens(2) [of "[]" doc p "[]" EOF "[]" 0] assms
    by (auto simp: headsFlat_def elementsOf_def)
  then show ?thesis
    by (simp add: Parse_def elementsOf_def)
qed

subsection \<open>Recognition of hierarchy elements\<close>

lemma Parse_single_element:
  "Parse p ([StartElement n attrs, EndElement n], EOF) =
     Inr \<lparr>Structures =
            (if isDivElement n
             then [newStructure p (attrTYPE attrs) (divLevelOf n) (attrN attrs) (attrNODE attrs)
                     None [] None (attrN attrs)]
             else []),
          TotalWords = 0\<rparr>"
  by (simp add: Parse_def parseDivElement.simps TrimSpace_Nil buildPath_def countWords_def)

lemma tokensOfDoc_single: "tokensOfDoc [Element n attrs []] = [StartElement n attrs, EndElement n]"
  by simp

lemma isDivName_simps:
  "isDivName ''DIV1''" "isDivName ''DIV2''" "isDivName ''DIVA''" "\<not> isDivName ''HEAD''"
  "\<not> isDivName ''P''" "\<not> isDivName ''ROOT''"
  by (simp_all add: isDivName_def)

text \<open>
  Claim C10, as the code has it. For a well-formed document in which no \<^verbatim>\<open>HEAD\<close> element
  lies in a \<^verbatim>\<open>HEAD\<close> element, \<open>Parse\<close> returns a result whose structures are, one for one
  and in the order of the document, those of its hierarchy elements: the elements whose
  name has four bytes and starts with \<^verbatim>\<open>DIV\<close> and that do not lie in a \<^verbatim>\<open>HEAD\<close> or other
  element of a different name inside such an element. The fourth byte is not checked:
  \<open>DivLevel\<close> is its code minus the code of \<^verbatim>\<open>0\<close> (on bytes), \<open>DivType\<close> and \<open>Identifier\<close>
  are the attributes \<^verbatim>\<open>TYPE\<close> and \<^verbatim>\<open>N\<close> of the element. So \<^verbatim>\<open>DIV0\<close> and \<^verbatim>\<open>DIVA\<close> yield
  structures of level 0 and 17, outside 1 to 9, and \<^verbatim>\<open>DIV10\<close> yields none.
\<close>

theorem Parse_div_recognition:
  "headsFlat doc \<Longrightarrow>
     (\<exists>r. Parse p (tokensOfDoc doc, EOF) = Inr r \<and>
          map (\<lambda>s. (DivType s, DivLevel s, Identifier s)) (Structures r) =
          map (\<lambda>x. (attrTYPE (snd (snd x)), (int (of_char (fst (snd x) ! 3)) - 48) mod 256,
                     attrN (snd (snd x))))
            (filter hierarchyElement (elementsOf doc))) \<and>
     (\<exists>r. Parse p (tokensOfDoc [Element ''DIV0'' [] []], EOF) = Inr r \<and>
          map DivLevel (Structures r) = [0]) \<and>
     (\<exists>r. Parse p (tokensOfDoc [Element ''DIVA'' [] []], EOF) = Inr r \<and>
          map DivLevel (Structures r) = [17]) \<and>
     (\<exists>r. Parse p (tokensOfDoc [Element ''DIV10'' [] []], EOF) = Inr r \<and>
          Structures r = [])"
proof (intro conjI)
  assume "headsFlat doc"
  then obtain r where r: "Parse p (tokensOfDoc doc, EOF) = Inr r"
    and m: "map row (Structures r) = map rowOf (filter hierarchyElement (elementsOf doc))"
    using Parse_document [of doc p] by blast
  have "map ((\<lambda>t. (fst t, fst (snd t), fst (snd (snd t)))) \<circ> row) (Structures r)
      = map ((\<lambda>t. (fst t, fst (snd t), fst (snd (snd t)))) \<circ> rowOf)
          (filter hierarchyElement (elementsOf doc))"
    using m by (metis map_map)
  then have "map (\<lambda>s. (DivType s, DivLevel s, Identifier s)) (Structures r) =
          map (\<lambda>x. (attrTYPE (snd (snd x)), (int (of_char (fst (snd x) ! 3)) - 48) mod 256,
                     attrN (snd (snd x))))
            (filter hierarchyElement (elementsOf doc))"
    by (simp add: row_def rowOf_def divLevelOf_def comp_def)
  then show "\<exists>r. Parse p (tokensOfDoc doc, EOF) = Inr r \<and>
          map (\<lambda>s. (DivType s, DivLevel s, Identifier s)) (Structures r) =
          map (\<lambda>x. (attrTYPE (snd (snd x)), (int (of_char (fst (snd x) ! 3)) - 48) mod 256,
                     attrN (snd (snd x))))
            (filter hierarchyElement (elementsOf doc))"
    using r by blast
next
  show "\<exists>r. Parse p (tokensOfDoc [Element ''DIV0'' [] []], EOF) = Inr r \<and>
        map DivLevel (Structures r) = [0]"
    unfolding tokensOfDoc_single
    by (simp add: Parse_single_element isDivElement_iff divLevelOf_def newStructure_def)
  show "\<exists>r. Parse p (tokensOfDoc [Element ''DIVA'' [] []], EOF) = Inr r \<and>
        map DivLevel (Structures r) = [17]"
    unfolding tokensOfDoc_single
    by (simp add: Parse_single_element isDivElement_iff divLevelOf_def newStructure_def)
  show "\<exists>r. Parse p (tokensOfDoc [Element ''DIV10'' [] []], EOF) = Inr r \<and>
        Structures r = []"
    unfolding tokensOfDoc_single
    by (simp add: Parse_single_element isDivElement_iff)
qed

theorem Parse_div_recognition_witness:
  "headsFlat doc_levels \<and>
   (\<exists>r. Parse (NewCfrParser 7 1) (tokensOfDoc doc_levels, EOF) = Inr r \<and>
        map (\<lambda>s. (DivLevel s, Identifier s)) (Structures r) = [(1, []), (17, ''x'')])"
proof -
  have h: "headsFlat doc_levels"
    by (simp add: headsFlat_def flat_def elementsOf_def doc_levels_def)
  have e: "filter hierarchyElement (elementsOf doc_levels) =
      [([(''ROOT'', [])], (''DIV1'', [])),
       ([(''ROOT'', []), (''DIV1'', [])], (''DIVA'', [(''N'', ''x'')]))]"
    by (simp add: elementsOf_def doc_levels_def hierarchyElement_def isDivTag_def isDivName_simps)
  obtain r where r: "Parse (NewCfrParser 7 1) (tokensOfDoc doc_levels, EOF) = Inr r"
    and m: "map (\<lambda>s. (DivType s, DivLevel s, Identifier s)) (Structures r) =
          map (\<lambda>x. (attrTYPE (snd (snd x)), (int (of_char (fst (snd x) ! 3)) - 48) mod 256,
                     attrN (snd (snd x))))
            (filter hierarchyElement (elementsOf doc_levels))"
    using Parse_div_recognition [OF h, of "NewCfrParser 7 1"] by blast
  have "map ((\<lambda>t. (fst (snd t), snd (snd t))) \<circ> (\<lambda>s. (DivType s, DivLevel s, Identifier s)))
          (Structures r) = [(1, []), (17, ''x'')]"
    unfolding map_map [symmetric] m e by (simp add: attrN_single attrN_Nil)
  then show ?thesis
    using h r by (simp add: comp_def)
qed

text \<open>
  Claim C10 as it is stated fails on \<^verbatim>\<open><DIV1><P><DIV2/></P></DIV1>\<close>: the name \<^verbatim>\<open>DIV2\<close> has
  four bytes and starts with \<^verbatim>\<open>DIV\<close>, and the element yields no structure, since the
  content of \<^verbatim>\<open>P\<close> is read by \<open>extractTextContent\<close>.
\<close>

theorem Parse_div_recognition_counterexample:
  "Parse (NewCfrParser 7 1)
     (tokensOfDoc [Element ''DIV1'' [] [Element ''P'' [] [Element ''DIV2'' [] []]]], EOF) =
     Inr \<lparr>Structures = [structure0], TotalWords = 0\<rparr> \<and>
   length ''DIV2'' = 4 \<and> take 3 ''DIV2'' = ''DIV''"
  by (simp add: Parse_def parseDivElement.simps isDivElement_def HasPrefix_def
      divLevelOf_def TrimSpace_Nil countWords_def newStructure_def buildPath_def
      attrN_Nil attrTYPE_def attrNODE_def structure0_def NewCfrParser_def)

subsection \<open>Paths\<close>

lemma joinIdentifiers_Cons:
  "joinIdentifiers (i # rest) = i @ concat (map ((@) ''/'') rest)"
  by (induction rest arbitrary: i) simp_all

lemma foldl_buildPath_nonempty:
  "acc \<noteq> [] \<Longrightarrow> foldl buildPath acc ids = acc @ concat (map ((@) ''/'') ids)"
  by (induction ids arbitrary: acc) (simp_all add: buildPath_def)

lemma foldl_buildPath:
  "foldl buildPath [] ids = joinIdentifiers (dropWhile (\<lambda>i. i = []) ids)"
proof (induction ids)
  case Nil
  then show ?case by simp
next
  case (Cons i ids)
  show ?case
  proof (cases "i = []")
    case True
    then show ?thesis using Cons by (simp add: buildPath_def)
  next
    case False
    then have "foldl buildPath [] (i # ids) = foldl buildPath i ids"
      by (simp add: buildPath_def)
    then show ?thesis
      using False by (simp add: foldl_buildPath_nonempty joinIdentifiers_Cons)
  qed
qed

lemma map_eq_list_all2: "map f xs = map g ys \<Longrightarrow> list_all2 (\<lambda>y x. f x = g y) ys xs"
  by (simp add: list_all2_conv_all_nth map_equality_iff)

lemma tokensOfDoc_two:
  "tokensOfDoc [Element ''DIV1'' a1 [Element ''DIV2'' a2 []]] = doc_two a1 a2"
  by (simp add: doc_two_def)

text \<open>
  Claim C4, as the code has it. For a well-formed document in which no \<^verbatim>\<open>HEAD\<close> element
  lies in a \<^verbatim>\<open>HEAD\<close> element, the nodes of the result are the hierarchy elements of the
  document, in its order, and for each of them, with the identifiers of its ancestors in
  the document from the root down: \<open>Path\<close> is the identifiers of the ancestors and its
  own, joined with \<^verbatim>\<open>/\<close>, after the empty identifiers at the front have been left out. So
  a node with no ancestors has its own identifier as \<open>Path\<close>, and a node whose outermost
  ancestor has a non-empty identifier has the join of all of them.
\<close>

theorem Parse_paths:
  "headsFlat doc \<Longrightarrow>
     \<exists>r. Parse p (tokensOfDoc doc, EOF) = Inr r \<and>
         list_all2
           (\<lambda>x s.
              Identifier s = attrN (snd (snd x)) \<and>
              Path s = joinIdentifiers
                         (dropWhile (\<lambda>i. i = []) (ancestorIdentifiers (fst x) @ [Identifier s])) \<and>
              (ancestorIdentifiers (fst x) = [] \<longrightarrow> Path s = Identifier s) \<and>
              (ancestorIdentifiers (fst x) \<noteq> [] \<and> hd (ancestorIdentifiers (fst x)) \<noteq> [] \<longrightarrow>
                 Path s = joinIdentifiers (ancestorIdentifiers (fst x) @ [Identifier s])))
           (filter hierarchyElement (elementsOf doc)) (Structures r)"
proof -
  assume "headsFlat doc"
  then obtain r where r: "Parse p (tokensOfDoc doc, EOF) = Inr r"
    and m: "map row (Structures r) = map rowOf (filter hierarchyElement (elementsOf doc))"
    using Parse_document [of doc p] by blast
  have a: "list_all2 (\<lambda>x s. row s = rowOf x) (filter hierarchyElement (elementsOf doc))
      (Structures r)"
    using m by (rule map_eq_list_all2)
  have b: "row s = rowOf x \<Longrightarrow>
      Identifier s = attrN (snd (snd x)) \<and>
      Path s = joinIdentifiers
                 (dropWhile (\<lambda>i. i = []) (ancestorIdentifiers (fst x) @ [Identifier s])) \<and>
      (ancestorIdentifiers (fst x) = [] \<longrightarrow> Path s = Identifier s) \<and>
      (ancestorIdentifiers (fst x) \<noteq> [] \<and> hd (ancestorIdentifiers (fst x)) \<noteq> [] \<longrightarrow>
         Path s = joinIdentifiers (ancestorIdentifiers (fst x) @ [Identifier s]))" for x s
    unfolding row_def rowOf_def foldl_buildPath
    by (cases "ancestorIdentifiers (fst x)") auto
  have "list_all2
           (\<lambda>x s.
              Identifier s = attrN (snd (snd x)) \<and>
              Path s = joinIdentifiers
                         (dropWhile (\<lambda>i. i = []) (ancestorIdentifiers (fst x) @ [Identifier s])) \<and>
              (ancestorIdentifiers (fst x) = [] \<longrightarrow> Path s = Identifier s) \<and>
              (ancestorIdentifiers (fst x) \<noteq> [] \<and> hd (ancestorIdentifiers (fst x)) \<noteq> [] \<longrightarrow>
                 Path s = joinIdentifiers (ancestorIdentifiers (fst x) @ [Identifier s])))
           (filter hierarchyElement (elementsOf doc)) (Structures r)"
    using a b by (rule list_all2_mono)
  then show ?thesis
    using r by blast
qed

theorem Parse_paths_witness:
  "headsFlat [Element ''DIV1'' [(''N'', ''1'')] [Element ''DIV2'' [(''N'', ''A'')] []]] \<and>
   (\<exists>r. Parse (NewCfrParser 7 1)
          (tokensOfDoc [Element ''DIV1'' [(''N'', ''1'')] [Element ''DIV2'' [(''N'', ''A'')] []]],
           EOF) = Inr r \<and>
        map (\<lambda>s. (Identifier s, Path s)) (Structures r) = [(''1'', ''1''), (''A'', ''1/A'')])"
proof -
  let ?doc = "[Element ''DIV1'' [(''N'', ''1'')] [Element ''DIV2'' [(''N'', ''A'')] []]]"
  have h: "headsFlat ?doc"
    by (simp add: headsFlat_def flat_def elementsOf_def)
  have e: "filter hierarchyElement (elementsOf ?doc) =
      [([], (''DIV1'', [(''N'', ''1'')])),
       ([(''DIV1'', [(''N'', ''1'')])], (''DIV2'', [(''N'', ''A'')]))]"
    by (simp add: elementsOf_def hierarchyElement_def isDivTag_def isDivName_simps)
  have a: "ancestorIdentifiers [] = []"
    "ancestorIdentifiers [(''DIV1'', [(''N'', ''1'')])] = [''1'']"
    by (simp_all add: ancestorIdentifiers_def isDivTag_def isDivName_simps attrN_single)
  show ?thesis
    using Parse_paths [OF h, of "NewCfrParser 7 1"] h unfolding e
    by (auto simp: list_all2_Cons1 a attrN_single)
qed

text \<open>
  Claim C4 as it is stated fails on \<^verbatim>\<open><DIV1><DIV2 N="A"></DIV2></DIV1>\<close>: the inner node has
  one ancestor, with the empty identifier, and its own identifier is \<^verbatim>\<open>A\<close>; the join of
  the two is \<^verbatim>\<open>/A\<close>, and its \<open>Path\<close> is \<^verbatim>\<open>A\<close>.
\<close>

theorem Parse_paths_counterexample:
  "Parse (NewCfrParser 7 1)
     (tokensOfDoc [Element ''DIV1'' [] [Element ''DIV2'' [(''N'', ''A'')] []]], EOF) =
     Inr \<lparr>Structures =
            [structure0, structure0\<lparr>DivLevel := 2, Identifier := ''A'', Path := ''A''\<rparr>],
          TotalWords = 0\<rparr> \<and>
   map (\<lambda>x. ancestorIdentifiers (fst x))
     (filter hierarchyElement
        (elementsOf [Element ''DIV1'' [] [Element ''DIV2'' [(''N'', ''A'')] []]])) =
     [[], [Identifier structure0]] \<and>
   Path (structure0\<lparr>DivLevel := 2, Identifier := ''A'', Path := ''A''\<rparr>) \<noteq>
     joinIdentifiers
       [Identifier structure0,
        Identifier (structure0\<lparr>DivLevel := 2, Identifier := ''A'', Path := ''A''\<rparr>)]"
  unfolding tokensOfDoc_two
  by (simp add: Parse_doc_two_no_N elementsOf_def hierarchyElement_def isDivTag_def
      isDivName_simps ancestorIdentifiers_def attrN_Nil structure0_def)

text \<open>
  The condition on \<^verbatim>\<open>HEAD\<close> is needed. In \<open>doc_head_in_head\<close> the loop of the heading
  ends at the inner \<^verbatim>\<open></HEAD>\<close> and the loop of the outer element at the inner
  \<^verbatim>\<open></DIV1>\<close>, so that \<^verbatim>\<open>DIV2\<close> is parsed from the loop of \<open>Parse\<close>: its \<open>Path\<close> is
  \<^verbatim>\<open>A\<close>, though it lies in the element of identifier \<^verbatim>\<open>1\<close>.
\<close>

lemma Parse_head_in_head:
  "\<not> headsFlat doc_head_in_head \<and>
   (\<exists>r. Parse p (tokensOfDoc doc_head_in_head, EOF) = Inr r \<and>
        map (\<lambda>s. (Identifier s, Path s)) (Structures r) = [(''1'', ''1''), (''A'', ''A'')])"
  by (simp add: doc_head_in_head_def headsFlat_def flat_def elementsOf_def
      Parse_def parseDivElement.simps isDivElement_def HasPrefix_def
      TrimSpace_Nil newStructure_def buildPath_def attrN_single)

subsection \<open>Parent links\<close>

lemma getParentPathFrom_no_sep:
  "\<forall>j < k. path ! j \<noteq> CHR ''/'' \<Longrightarrow> getParentPathFrom path k = []"
  by (induction k) simp_all

lemma getParentPath_no_sep: "CHR ''/'' \<notin> set path \<Longrightarrow> getParentPath path = []"
  unfolding getParentPath_def
  by (rule getParentPathFrom_no_sep) (metis nth_mem)

lemma getParentPathFrom_prefix:
  "k \<le> length xs \<Longrightarrow> getParentPathFrom (xs @ ys) k = getParentPathFrom xs k"
  by (induction k) (simp_all add: nth_append)

lemma getParentPath_split:
  "CHR ''/'' \<notin> set seg \<Longrightarrow> getParentPath (pre @ ''/'' @ seg) = pre"
proof (induction seg rule: rev_induct)
  case Nil
  then show ?case by (simp add: getParentPath_def nth_append)
next
  case (snoc c seg)
  have "getParentPath (pre @ ''/'' @ seg @ [c]) =
      getParentPathFrom ((pre @ ''/'' @ seg) @ [c]) (Suc (length (pre @ ''/'' @ seg)))"
    by (simp add: getParentPath_def)
  also have "\<dots> = getParentPathFrom ((pre @ ''/'' @ seg) @ [c]) (length (pre @ ''/'' @ seg))"
  proof -
    have "((pre @ ''/'' @ seg) @ [c]) ! length (pre @ ''/'' @ seg) = c"
      by (rule nth_append_length)
    moreover have "c \<noteq> CHR ''/''"
      using snoc.prems by auto
    ultimately show ?thesis
      by (simp only: getParentPathFrom.simps if_False)
  qed
  also have "\<dots> = getParentPathFrom (pre @ ''/'' @ seg) (length (pre @ ''/'' @ seg))"
    by (rule getParentPathFrom_prefix) simp
  also have "\<dots> = pre"
    using snoc by (simp add: getParentPath_def)
  finally show ?case .
qed

lemma buildPathMap_dom:
  "dom (buildPathMap ss i m) = dom m \<union> Path ` set ss"
  by (induction ss arbitrary: i m) auto

lemma ParentId_setParent:
  "ParentId s = None \<Longrightarrow>
     ParentId (setParent m s) \<noteq> None \<longleftrightarrow>
       getParentPath (Path s) \<noteq> [] \<and> getParentPath (Path s) \<in> dom m"
  by (auto simp: setParent_def split: option.splits)

lemma linkParents_ParentId:
  assumes "i < length structures" and "ParentId (structures ! i) = None"
  shows "ParentId (linkParents structures ! i) \<noteq> None \<longleftrightarrow>
     getParentPath (Path (structures ! i)) \<noteq> [] \<and>
     (\<exists>s \<in> set structures. Path s = getParentPath (Path (structures ! i)))"
proof -
  have "linkParents structures ! i =
      setParent (buildPathMap structures 0 Map.empty) (structures ! i)"
    using assms(1) by (auto simp: linkParents_def)
  moreover have "dom (buildPathMap structures 0 Map.empty) = Path ` set structures"
    by (simp add: buildPathMap_dom)
  ultimately show ?thesis
    using ParentId_setParent [OF assms(2), of "buildPathMap structures 0 Map.empty"]
    by (simp only:) (metis (no_types) image_iff)
qed

lemma parseDivElement_divLoop_ParentId:
  "ParentId (hd (fst (snd (parseDivElement p ts name attrs divLevel parentId parentPath)))) = parentId \<and>
   (\<forall>s \<in> set (tl (fst (snd (parseDivElement p ts name attrs divLevel parentId parentPath)))).
      ParentId s = None)"
  "\<forall>s \<in> set childStructures. ParentId s = None \<Longrightarrow>
   \<forall>s \<in> set (snd (snd (snd (divLoop p ts name path heading textContent childStructures)))).
      ParentId s = None"
proof (induction p ts name attrs divLevel parentId parentPath
         and p ts name path heading textContent childStructures
       rule: parseDivElement_divLoop.induct)
  case (1 p ts name attrs divLevel parentId parentPath)
  then show ?case
    by (cases "divLoop p ts name (buildPath parentPath (attrN attrs)) None [] []")
       (simp add: parseDivElement.simps newStructure_def)
next
  case (4 p n attrs ts name path heading textContent childStructures)
  show ?case
  proof (cases "n = ''HEAD''")
    case True
    then show ?thesis
      using "4.IH"(1) [OF True _ "4.prems"] by (cases "headLoop ts []") simp
  next
    case notHead: False
    show ?thesis
    proof (cases "isDivElement n")
      case True
      obtain ts' childDivs words where
        c: "parseDivElement p ts n attrs (divLevelOf n) None path = (ts', childDivs, words)"
        by (cases "parseDivElement p ts n attrs (divLevelOf n) None path")
      have ne: "childDivs \<noteq> []"
        using parseDivElement_words [of p ts n attrs "divLevelOf n" None path] c by auto
      have "ParentId (hd childDivs) = None \<and> (\<forall>s \<in> set (tl childDivs). ParentId s = None)"
        using "4.IH"(2) [OF notHead True] c by simp
      then have "\<forall>s \<in> set childDivs. ParentId s = None"
        using ne by (cases childDivs) auto
      then have "\<forall>s \<in> set (childStructures @ childDivs). ParentId s = None"
        using "4.prems" by auto
      then show ?thesis
        using "4.IH"(3) [OF notHead True c [symmetric] refl] notHead True c by simp
    next
      case False
      then show ?thesis
        using "4.IH"(4) [OF notHead False _ "4.prems"] notHead
        by (cases "extractTextContent ts n textContent") simp
    qed
  qed
qed simp_all

lemma ParseLoop_ParentId:
  "ParseLoop p ts err structures totalWords = Inr r \<Longrightarrow>
   \<forall>s \<in> set structures. ParentId s = None \<Longrightarrow>
   \<forall>s \<in> set (Structures r). ParentId s = None"
proof (induction p ts err structures totalWords rule: ParseLoop.induct)
  case (1 p err structures totalWords)
  then show ?case by (auto split: if_splits)
next
  case (2 p n attrs ts err structures totalWords)
  show ?case
  proof (cases "isDivElement n")
    case True
    obtain ts' divStructures words where
      c: "parseDivElement p ts n attrs (divLevelOf n) None [] = (ts', divStructures, words)"
      by (cases "parseDivElement p ts n attrs (divLevelOf n) None []")
    have ne: "divStructures \<noteq> []"
      using parseDivElement_words [of p ts n attrs "divLevelOf n" None "[]"] c by auto
    have "ParentId (hd divStructures) = None \<and>
        (\<forall>s \<in> set (tl divStructures). ParentId s = None)"
      using parseDivElement_divLoop_ParentId(1) [of p ts n attrs "divLevelOf n" None "[]"] c
      by simp
    then have "\<forall>s \<in> set divStructures. ParentId s = None"
      using ne by (cases divStructures) auto
    then have "\<forall>s \<in> set (structures @ divStructures). ParentId s = None"
      using "2.prems"(2) by auto
    moreover have "ParseLoop p ts' err (structures @ divStructures) (totalWords + words) = Inr r"
      using "2.prems"(1) True c by simp
    ultimately show ?thesis
      using "2.IH"(1) [OF True c [symmetric] refl] by simp
  next
    case False
    then show ?thesis using 2 by simp
  qed
qed simp_all

lemma Parse_ParentId:
  "Parse p decoder = Inr r \<Longrightarrow> s \<in> set (Structures r) \<Longrightarrow> ParentId s = None"
  using ParseLoop_ParentId [of p "fst decoder" "snd decoder" "[]" 0 r]
  by (simp add: Parse_def)

text \<open>
  Claim C5, as the code has it. After the two passes over the structures of a result, a
  node has a parent exactly when its path truncated at the last separator is not empty
  and is the path of a node of the list; a node whose path has no separator has no parent;
  and \<open>getParentPath\<close> is that truncation: of \<open>pre/seg\<close>, with no separator in \<open>seg\<close>, it
  is \<open>pre\<close>.
\<close>

theorem linkParents_parent:
  assumes "Parse p decoder = Inr r" and "i < length (Structures r)"
  shows
    "(ParentId (linkParents (Structures r) ! i) \<noteq> None \<longleftrightarrow>
        getParentPath (Path (Structures r ! i)) \<noteq> [] \<and>
        (\<exists>s \<in> set (Structures r). Path s = getParentPath (Path (Structures r ! i)))) \<and>
     (CHR ''/'' \<notin> set (Path (Structures r ! i)) \<longrightarrow>
        ParentId (linkParents (Structures r) ! i) = None) \<and>
     (\<forall>pre seg. Path (Structures r ! i) = pre @ ''/'' @ seg \<and> CHR ''/'' \<notin> set seg \<longrightarrow>
        getParentPath (Path (Structures r ! i)) = pre)"
proof -
  have none: "ParentId (Structures r ! i) = None"
    using assms by (auto intro: Parse_ParentId)
  have iff: "ParentId (linkParents (Structures r) ! i) \<noteq> None \<longleftrightarrow>
        getParentPath (Path (Structures r ! i)) \<noteq> [] \<and>
        (\<exists>s \<in> set (Structures r). Path s = getParentPath (Path (Structures r ! i)))"
    using assms(2) none by (rule linkParents_ParentId)
  moreover have "CHR ''/'' \<notin> set (Path (Structures r ! i)) \<longrightarrow>
        ParentId (linkParents (Structures r) ! i) = None"
    using iff by (auto simp: getParentPath_no_sep)
  moreover have "\<forall>pre seg. Path (Structures r ! i) = pre @ ''/'' @ seg \<and> CHR ''/'' \<notin> set seg \<longrightarrow>
        getParentPath (Path (Structures r ! i)) = pre"
    using getParentPath_split by auto
  ultimately show ?thesis by blast
qed

lemma getParentPath_1A: "getParentPath ''1/A'' = ''1''"
  using getParentPath_split [of "''A''" "''1''"] by simp

lemma getParentPath_slash_A: "getParentPath ''/A'' = []"
  using getParentPath_split [of "''A''" "[]"] by simp

theorem linkParents_parent_witness:
  "ParentId
     (linkParents
        [structure0\<lparr>Identifier := ''1'', Path := ''1''\<rparr>,
         structure0\<lparr>DivLevel := 2, Identifier := ''A'', Path := ''1/A''\<rparr>] ! 1) \<noteq> None \<and>
   ParentId
     (linkParents
        [structure0\<lparr>Identifier := ''1'', Path := ''1''\<rparr>,
         structure0\<lparr>DivLevel := 2, Identifier := ''A'', Path := ''1/A''\<rparr>] ! 0) = None"
proof -
  let ?d = "(doc_two [(''N'', ''1'')] [(''N'', ''A'')], EOF)"
  let ?ss = "[structure0\<lparr>Identifier := ''1'', Path := ''1''\<rparr>,
               structure0\<lparr>DivLevel := 2, Identifier := ''A'', Path := ''1/A''\<rparr>]"
  have e: "Parse (NewCfrParser 7 1) ?d = Inr \<lparr>Structures = ?ss, TotalWords = 0\<rparr>"
    by (simp add: Parse_doc_two attrN_single attrTYPE_def attrNODE_def buildPath_def
        newStructure_def structure0_def NewCfrParser_def countWords_def)
  have "ParentId (linkParents ?ss ! 1) \<noteq> None"
    using linkParents_parent [OF e, of 1]
    by (simp add: getParentPath_1A getParentPath_no_sep)
  moreover have "ParentId (linkParents ?ss ! 0) = None"
    using linkParents_parent [OF e, of 0]
    by (simp add: getParentPath_no_sep)
  ultimately show ?thesis
    by blast
qed

text \<open>
  Claim C5 as it is stated fails on \<^verbatim>\<open><DIV1><DIV2 N="/A"></DIV2></DIV1>\<close>: the path of the
  inner node is \<^verbatim>\<open>/A\<close>, which truncated at its last separator is the empty path, and the
  outer node has the empty path; yet the inner node keeps no parent.
\<close>

theorem linkParents_parent_counterexample:
  "Parse (NewCfrParser 7 1) (doc_two [] [(''N'', ''/A'')], EOF) =
     Inr \<lparr>Structures =
            [structure0, structure0\<lparr>DivLevel := 2, Identifier := ''/A'', Path := ''/A''\<rparr>],
          TotalWords = 0\<rparr> \<and>
   Path (structure0\<lparr>DivLevel := 2, Identifier := ''/A'', Path := ''/A''\<rparr>) = [] @ ''/'' @ ''A'' \<and>
   CHR ''/'' \<notin> set ''A'' \<and>
   Path structure0 = [] \<and>
   ParentId
     (linkParents
        [structure0, structure0\<lparr>DivLevel := 2, Identifier := ''/A'', Path := ''/A''\<rparr>] ! 1) =
     None"
  by (simp add: Parse_doc_two attrN_single attrN_Nil attrTYPE_def attrNODE_def buildPath_def
      newStructure_def structure0_def NewCfrParser_def countWords_def linkParents_def
      setParent_def getParentPath_slash_A)

section \<open>Properties of the runner\<close>

lemma sum_list_map_update:
  "i < length xs \<Longrightarrow>
     sum_list (map f (xs[i := y])) + f (xs ! i) = sum_list (map f xs) + (f y :: nat)"
proof (induction xs arbitrary: i)
  case Nil
  then show ?case by simp
next
  case (Cons x xs)
  then show ?case by (cases i) auto
qed

lemma phaseOf_Some:
  "phaseOf s i = Some ph \<longleftrightarrow> i < length (goroutines s) \<and> snd (goroutines s ! i) = ph"
  by (auto simp: phaseOf_def)

lemma sum_setPhase:
  "i < length (goroutines s) \<Longrightarrow>
     sum_list (map f (goroutines (setPhase i ph s))) + f (goroutines s ! i) =
       sum_list (map f (goroutines s)) + (f (fst (goroutines s ! i), ph) :: nat)"
  by (simp add: setPhase_def sum_list_map_update)

lemma setPhase_fields [simp]:
  "pc (setPhase i ph s) = pc s" "pending (setPhase i ph s) = pending s"
  "throttle (setPhase i ph s) = throttle s"
  "messagesC (setPhase i ph s) = messagesC s" "resultsC (setPhase i ph s) = resultsC s"
  "errorsC (setPhase i ph s) = errorsC s" "logged (setPhase i ph s) = logged s"
  "resultsList (setPhase i ph s) = resultsList s" "errorsList (setPhase i ph s) = errorsList s"
  "length (goroutines (setPhase i ph s)) = length (goroutines s)"
  by (simp_all add: setPhase_def)

lemma accounted_step:
  assumes "step r worker e (s :: ('t, 'r) run_state) = Some s'" and "accounted worker items s"
  shows "accounted worker items s'"
proof (cases e)
  case Acquire
  then show ?thesis using assms by (auto simp: accounted_def split: if_splits)
next
  case Go
  then show ?thesis using assms by (auto simp: accounted_def split: if_splits list.splits)
next
  case (Call i)
  then obtain item where g: "i < length (goroutines s)" "goroutines s ! i = (item, Started)"
    and s': "s' = setPhase i (Running (worker item)) s"
    using assms(1) by (auto simp: phaseOf_def split: if_splits phase.splits) (metis prod.collapse)
  show ?thesis
    using assms(2) sum_setPhase [OF g(1), of "owed worker" "Running (worker item)"] g(2)
    unfolding s' accounted_def by simp
next
  case (Send i)
  obtain item a as where g: "i < length (goroutines s)" "goroutines s ! i = (item, Running (a # as))"
    using assms(1) Send
    by (auto simp: phaseOf_def split: if_splits phase.splits list.splits) (metis prod.collapse)
  have u: "sum_list (map (owed worker) (goroutines (setPhase i (Running as) t))) + outcomes (a # as)
      = sum_list (map (owed worker) (goroutines s)) + outcomes as"
    if "goroutines t = goroutines s" for t :: "('t, 'r) run_state"
    using sum_setPhase [of i t "owed worker" "Running as"] g that by simp
  show ?thesis
  proof (cases a)
    case (SendMessage m)
    then have "s' = setPhase i (Running as) (s\<lparr>messagesC := Holding m\<rparr>)"
      using assms(1) Send g by (auto simp: phaseOf_def split: if_splits)
    then show ?thesis
      using assms(2) u [of "s\<lparr>messagesC := Holding m\<rparr>"] SendMessage
      by (simp add: accounted_def outcomes_def)
  next
    case (SendResult x)
    then have "s' = setPhase i (Running as) (s\<lparr>resultsC := Holding x\<rparr>)" and "resultsC s = Idle"
      using assms(1) Send g by (auto simp: phaseOf_def split: if_splits)
    then show ?thesis
      using assms(2) u [of "s\<lparr>resultsC := Holding x\<rparr>"] SendResult
      by (simp add: accounted_def outcomes_def)
  next
    case (SendError x)
    then have "s' = setPhase i (Running as) (s\<lparr>errorsC := Holding x\<rparr>)" and "errorsC s = Idle"
      using assms(1) Send g by (auto simp: phaseOf_def split: if_splits)
    then show ?thesis
      using assms(2) u [of "s\<lparr>errorsC := Holding x\<rparr>"] SendError
      by (simp add: accounted_def outcomes_def)
  qed
next
  case (WorkerReturn i)
  then obtain item ph where g: "i < length (goroutines s)" "goroutines s ! i = (item, Running [])"
    and s': "s' = setPhase i ph s" and ph: "ph = Releasing \<or> ph = Finishing"
    using assms(1)
    by (auto simp: phaseOf_def split: if_splits phase.splits list.splits) (metis prod.collapse)+
  show ?thesis
    using assms(2) sum_setPhase [OF g(1), of "owed worker" ph] g(2) ph
    unfolding s' accounted_def by (auto simp: outcomes_def)
next
  case (Release i)
  then obtain item where g: "i < length (goroutines s)" "goroutines s ! i = (item, Releasing)"
    and s': "s' = setPhase i Finishing (s\<lparr>throttle := throttle s - 1\<rparr>)"
    using assms(1)
    by (auto simp: phaseOf_def split: if_splits phase.splits list.splits) (metis prod.collapse)
  show ?thesis
    using assms(2) sum_setPhase [of i "s\<lparr>throttle := throttle s - 1\<rparr>" "owed worker" Finishing] g
    unfolding s' accounted_def by simp
next
  case (WgDone i)
  then obtain item where g: "i < length (goroutines s)" "goroutines s ! i = (item, Finishing)"
    and s': "s' = setPhase i Done s"
    using assms(1)
    by (auto simp: phaseOf_def split: if_splits phase.splits list.splits) (metis prod.collapse)
  show ?thesis
    using assms(2) sum_setPhase [OF g(1), of "owed worker" Done] g(2)
    unfolding s' accounted_def by simp
qed (use assms in \<open>auto simp: accounted_def split: if_splits collector.splits\<close>)

lemma set_setPhase:
  "g \<in> set (goroutines (setPhase i ph s)) \<Longrightarrow> g \<in> set (goroutines s) \<or> snd g = ph"
  unfolding setPhase_def by (auto dest!: set_update_subset_insert [THEN subsetD])

lemma goroutines_setPhase_other [simp]:
  "goroutines (setPhase i ph (s\<lparr>messagesC := m\<rparr>)) = goroutines (setPhase i ph s)"
  "goroutines (setPhase i ph (s\<lparr>resultsC := x\<rparr>)) = goroutines (setPhase i ph s)"
  "goroutines (setPhase i ph (s\<lparr>errorsC := e\<rparr>)) = goroutines (setPhase i ph s)"
  "goroutines (setPhase i ph (s\<lparr>throttle := n\<rparr>)) = goroutines (setPhase i ph s)"
  by (simp_all add: setPhase_def)

lemma worker_step_aux:
  assumes "step r worker e (s :: ('t, 'r) run_state) = Some s'" and "e \<in> workerEvents i"
  shows "i < length (goroutines s) \<and> snd (goroutines s ! i) \<noteq> Done \<and>
         goroutines s' = goroutines (setPhase i (snd (goroutines s' ! i)) s) \<and>
         pc s' = pc s \<and> pending s' = pending s \<and>
         (messagesC s' = Exited \<longleftrightarrow> messagesC s = Exited) \<and>
         (resultsC s' = Exited \<longleftrightarrow> resultsC s = Exited) \<and>
         (errorsC s' = Exited \<longleftrightarrow> errorsC s = Exited) \<and>
         (\<not> throttled r \<longrightarrow> snd (goroutines s' ! i) \<noteq> Releasing)"
  using assms
  by (auto simp: workerEvents_def phaseOf_def setPhase_def
           split: if_splits phase.splits list.splits action.splits)

lemma worker_step:
  assumes "step r worker e (s :: ('t, 'r) run_state) = Some s'" and "e \<in> workerEvents i"
  obtains ph' where
    "i < length (goroutines s)" and "snd (goroutines s ! i) \<noteq> Done"
    and "goroutines s' = goroutines (setPhase i ph' s)"
    and "pc s' = pc s" and "pending s' = pending s"
    and "messagesC s' = Exited \<longleftrightarrow> messagesC s = Exited"
    and "resultsC s' = Exited \<longleftrightarrow> resultsC s = Exited"
    and "errorsC s' = Exited \<longleftrightarrow> errorsC s = Exited"
    and "\<not> throttled r \<longrightarrow> ph' \<noteq> Releasing"
  using worker_step_aux [OF assms] by blast

lemma phases_setPhase:
  "snd ` set (goroutines (setPhase i ph s)) \<subseteq> insert ph (snd ` set (goroutines s))"
  using set_setPhase [of _ i ph s] by auto

lemma shaped_step:
  assumes "step r worker e (s :: ('t, 'r) run_state) = Some s'" and "shaped r s"
  shows "shaped r s'"
proof (cases "\<exists>i. e \<in> workerEvents i")
  case True
  then obtain i where "e \<in> workerEvents i" ..
  from worker_step [OF assms(1) this] obtain ph' where
    w: "i < length (goroutines s)" "snd (goroutines s ! i) \<noteq> Done"
       "goroutines s' = goroutines (setPhase i ph' s)"
       "pc s' = pc s" "pending s' = pending s"
       "messagesC s' = Exited \<longleftrightarrow> messagesC s = Exited"
       "resultsC s' = Exited \<longleftrightarrow> resultsC s = Exited"
       "errorsC s' = Exited \<longleftrightarrow> errorsC s = Exited"
       "\<not> throttled r \<longrightarrow> ph' \<noteq> Releasing"
    by blast
  have "snd (goroutines s ! i) \<in> snd ` set (goroutines s)"
    using w(1) by simp
  then have notDone: "\<not> snd ` set (goroutines s) \<subseteq> {Done}"
    using w(2) by blast
  have sub: "snd ` set (goroutines s') \<subseteq> insert ph' (snd ` set (goroutines s))"
    unfolding w(3) by (rule phases_setPhase)
  have "pc s' = Spawning \<longrightarrow> pending s' \<noteq> []"
    using assms(2) w(4,5) unfolding shaped_def by simp
  moreover have "pc s' \<in> {Waiting, Closed, Returned} \<longrightarrow> pending s' = []"
    using assms(2) w(4,5) unfolding shaped_def by simp
  moreover have "pc s' \<in> {Closed, Returned} \<longrightarrow> snd ` set (goroutines s') \<subseteq> {Done}"
    using assms(2) w(4) notDone unfolding shaped_def by simp
  moreover have "pc s' = Returned \<longrightarrow>
         messagesC s' = Exited \<and> resultsC s' = Exited \<and> errorsC s' = Exited"
    using assms(2) w(4) notDone unfolding shaped_def by simp
  moreover have "pc s' \<in> {AtLoop, Spawning, Waiting} \<longrightarrow>
         messagesC s' \<noteq> Exited \<and> resultsC s' \<noteq> Exited \<and> errorsC s' \<noteq> Exited"
    using assms(2) w(4,6,7,8) unfolding shaped_def by simp
  moreover have "\<not> throttled r \<longrightarrow> Releasing \<notin> snd ` set (goroutines s')"
    using assms(2) w(9) sub unfolding shaped_def by blast
  ultimately show ?thesis
    unfolding shaped_def by blast
next
  case False
  then consider "e = Acquire" | "e = Go" | "e = LoopExit" | "e = Close" | "e = Return"
    | "e = LogMessage" | "e = AppendResult" | "e = AppendError"
    | "e = ExitMessages" | "e = ExitResults" | "e = ExitErrors"
    by (cases e) (auto simp: workerEvents_def)
  then show ?thesis
  proof cases
    case 1
    then show ?thesis using assms by (auto simp: shaped_def split: if_splits)
  next
    case 2
    then show ?thesis using assms by (auto simp: shaped_def split: if_splits list.splits)
  next
    case 3
    then show ?thesis using assms by (auto simp: shaped_def split: if_splits)
  next
    case 4
    then have c: "pc s = Waiting" "s' = s\<lparr>pc := Closed\<rparr>"
      and d: "\<forall>g \<in> set (goroutines s). snd g = Done"
      using assms(1) by (auto split: if_splits)
    from d have "snd ` set (goroutines s) \<subseteq> {Done}"
      by auto
    then show ?thesis
      using assms(2) c unfolding shaped_def by simp
  next
    case 5
    then have c: "pc s = Closed" "s' = s\<lparr>pc := Returned\<rparr>"
      "messagesC s = Exited" "resultsC s = Exited" "errorsC s = Exited"
      using assms(1) by (auto split: if_splits)
    then show ?thesis
      using assms(2) unfolding shaped_def by simp
  next
    case 6
    then obtain m where "messagesC s = Holding m" and "s' = s\<lparr>messagesC := Idle, logged := logged s @ [LogPrefix (config r) @ '': '' @ m]\<rparr>"
      using assms(1) by (cases "messagesC s") auto
    then show ?thesis
      using assms(2) unfolding shaped_def by simp
  next
    case 7
    then obtain x where "resultsC s = Holding x" and "s' = s\<lparr>resultsC := Idle, resultsList := resultsList s @ [x]\<rparr>"
      using assms(1) by (cases "resultsC s") auto
    then show ?thesis
      using assms(2) unfolding shaped_def by simp
  next
    case 8
    then obtain x where "errorsC s = Holding x" and "s' = s\<lparr>errorsC := Idle, errorsList := errorsList s @ [x]\<rparr>"
      using assms(1) by (cases "errorsC s") auto
    then show ?thesis
      using assms(2) unfolding shaped_def by simp
  next
    case 9
    then have "pc s = Closed" and "s' = s\<lparr>messagesC := Exited\<rparr>"
      using assms(1) by (auto split: if_splits)
    then show ?thesis
      using assms(2) unfolding shaped_def by simp
  next
    case 10
    then have "pc s = Closed" and "s' = s\<lparr>resultsC := Exited\<rparr>"
      using assms(1) by (auto split: if_splits)
    then show ?thesis
      using assms(2) unfolding shaped_def by simp
  next
    case 11
    then have "pc s = Closed" and "s' = s\<lparr>errorsC := Exited\<rparr>"
      using assms(1) by (auto split: if_splits)
    then show ?thesis
      using assms(2) unfolding shaped_def by simp
  qed
qed

lemma worker_step_slot_aux:
  assumes "step r worker e (s :: ('t, 'r) run_state) = Some s'" and "e \<in> workerEvents i"
    and "throttled r"
  shows "i < length (goroutines s) \<and>
         goroutines s' = goroutines (setPhase i (snd (goroutines s' ! i)) s) \<and>
         pc s' = pc s \<and>
         throttle s' + slot (snd (goroutines s ! i)) =
           throttle s + slot (snd (goroutines s' ! i)) \<and>
         throttle s' \<le> throttle s"
  using assms
  by (auto simp: workerEvents_def phaseOf_def setPhase_def
           split: if_splits phase.splits list.splits action.splits)

lemma worker_step_slot:
  assumes "step r worker e (s :: ('t, 'r) run_state) = Some s'" and "e \<in> workerEvents i"
    and "throttled r"
  obtains ph' where
    "i < length (goroutines s)" and "goroutines s' = goroutines (setPhase i ph' s)"
    and "pc s' = pc s"
    and "throttle s' + slot (snd (goroutines s ! i)) = throttle s + slot ph'"
    and "throttle s' \<le> throttle s"
  using worker_step_slot_aux [OF assms] by blast

lemma slotted_step:
  assumes "step r worker e (s :: ('t, 'r) run_state) = Some s'" and "slotted r s"
    and "throttled r"
  shows "slotted r s'"
proof (cases "\<exists>i. e \<in> workerEvents i")
  case True
  then obtain i where "e \<in> workerEvents i" ..
  from worker_step_slot [OF assms(1) this assms(3)] obtain ph' where
    w: "i < length (goroutines s)" "goroutines s' = goroutines (setPhase i ph' s)"
       "pc s' = pc s"
       "throttle s' + slot (snd (goroutines s ! i)) = throttle s + slot ph'"
       "throttle s' \<le> throttle s"
    by blast
  have "sum_list (map (\<lambda>g. slot (snd g)) (goroutines s')) + slot (snd (goroutines s ! i)) =
      sum_list (map (\<lambda>g. slot (snd g)) (goroutines s)) + slot ph'"
    unfolding w(2) using sum_setPhase [OF w(1), of "\<lambda>g. slot (snd g)" ph'] by simp
  then show ?thesis
    using assms(2) w(3,4,5) unfolding slotted_def by auto
next
  case False
  then consider "e = Acquire" | "e = Go" | "e = LoopExit" | "e = Close" | "e = Return"
    | "e = LogMessage" | "e = AppendResult" | "e = AppendError"
    | "e = ExitMessages" | "e = ExitResults" | "e = ExitErrors"
    by (cases e) (auto simp: workerEvents_def)
  then show ?thesis
  proof cases
    case 1
    then have "pc s = AtLoop" and "s' = s\<lparr>pc := Spawning, throttle := Suc (throttle s)\<rparr>"
      and "int (throttle s) < MaxConcurrency (config r)"
      using assms(1,3) by (auto split: if_splits)
    then show ?thesis
      using assms(2) unfolding slotted_def by simp
  next
    case 2
    then obtain item rest where "pc s = Spawning" and "pending s = item # rest"
      and "s' = s\<lparr>pc := AtLoop, pending := rest,
                     goroutines := goroutines s @ [(item, Started)]\<rparr>"
      using assms(1) by (auto split: if_splits list.splits)
    then show ?thesis
      using assms(2) unfolding slotted_def by simp
  next
    case 3
    then have "pc s = AtLoop" and "s' = s\<lparr>pc := Waiting\<rparr>"
      using assms(1) by (auto split: if_splits)
    then show ?thesis
      using assms(2) unfolding slotted_def by simp
  next
    case 4
    then have "pc s = Waiting" and "s' = s\<lparr>pc := Closed\<rparr>"
      using assms(1) by (auto split: if_splits)
    then show ?thesis
      using assms(2) unfolding slotted_def by simp
  next
    case 5
    then have "pc s = Closed" and "s' = s\<lparr>pc := Returned\<rparr>"
      using assms(1) by (auto split: if_splits)
    then show ?thesis
      using assms(2) unfolding slotted_def by simp
  next
    case 6
    then obtain m where "s' = s\<lparr>messagesC := Idle,
        logged := logged s @ [LogPrefix (config r) @ '': '' @ m]\<rparr>"
      using assms(1) by (cases "messagesC s") auto
    then show ?thesis
      using assms(2) unfolding slotted_def by simp
  next
    case 7
    then obtain x where "s' = s\<lparr>resultsC := Idle, resultsList := resultsList s @ [x]\<rparr>"
      using assms(1) by (cases "resultsC s") auto
    then show ?thesis
      using assms(2) unfolding slotted_def by simp
  next
    case 8
    then obtain x where "s' = s\<lparr>errorsC := Idle, errorsList := errorsList s @ [x]\<rparr>"
      using assms(1) by (cases "errorsC s") auto
    then show ?thesis
      using assms(2) unfolding slotted_def by simp
  next
    case 9
    then have "s' = s\<lparr>messagesC := Exited\<rparr>"
      using assms(1) by (auto split: if_splits)
    then show ?thesis
      using assms(2) unfolding slotted_def by simp
  next
    case 10
    then have "s' = s\<lparr>resultsC := Exited\<rparr>"
      using assms(1) by (auto split: if_splits)
    then show ?thesis
      using assms(2) unfolding slotted_def by simp
  next
    case 11
    then have "s' = s\<lparr>errorsC := Exited\<rparr>"
      using assms(1) by (auto split: if_splits)
    then show ?thesis
      using assms(2) unfolding slotted_def by simp
  qed
qed

subsection \<open>Invariants of every schedule\<close>

lemma exec_invariant:
  assumes "\<And>e s s'. step r worker e s = Some s' \<Longrightarrow> P s \<Longrightarrow> P s'"
  shows "exec r worker es s = Some s' \<Longrightarrow> P s \<Longrightarrow> P s'"
proof (induction es arbitrary: s)
  case Nil
  then show ?case by simp
next
  case (Cons e es)
  then show ?case
    using assms by (cases "step r worker e s") auto
qed

lemma exec_append:
  "exec r worker (es @ es') s =
     (case exec r worker es s of None \<Rightarrow> None | Some s' \<Rightarrow> exec r worker es' s')"
  by (induction es arbitrary: s) (auto split: option.splits)

lemma accounted_start: "accounted worker items (start items)"
  by (simp add: accounted_def start_def)

lemma shaped_start: "shaped r (start items)"
  by (simp add: shaped_def start_def)

lemma slotted_start: "throttled r \<Longrightarrow> slotted r (start items)"
  by (simp add: slotted_def start_def throttled_def)

lemma reachable_accounted:
  "exec r worker es (start items) = Some s \<Longrightarrow> accounted worker items s"
  using exec_invariant [of r worker "accounted worker items" es "start items" s]
    accounted_step accounted_start by blast

lemma reachable_shaped:
  "exec r worker es (start items) = Some s \<Longrightarrow> shaped r s"
  using exec_invariant [of r worker "shaped r" es "start items" s]
    shaped_step shaped_start by blast

lemma reachable_slotted:
  "throttled r \<Longrightarrow> exec r worker es (start items) = Some s \<Longrightarrow> slotted r s"
  using exec_invariant [of r worker "slotted r" es "start items" s]
    slotted_step slotted_start by blast

lemma owed_Done: "snd ` set gs \<subseteq> {Done} \<Longrightarrow> sum_list (map (owed worker) gs) = 0"
  by (induction gs) auto

lemma outcomes_one:
  "\<forall>item \<in> set items. outcomes (worker item) = 1 \<Longrightarrow>
     sum_list (map (\<lambda>item. outcomes (worker item)) items) = length items"
  by (induction items) auto

lemma returned_count:
  assumes "exec r worker es (start items) = Some s" and "pc s = Returned"
  shows "length (resultsList s) + length (errorsList s) =
     sum_list (map (\<lambda>item. outcomes (worker item)) items)"
proof -
  have sh: "shaped r s" using assms(1) by (rule reachable_shaped)
  have "pending s = []" "snd ` set (goroutines s) \<subseteq> {Done}"
    "resultsC s = Exited" "errorsC s = Exited"
    using sh assms(2) unfolding shaped_def by simp_all
  then show ?thesis
    using reachable_accounted [OF assms(1)] unfolding accounted_def
    by (simp add: owed_Done)
qed

lemma executing_le_slot: "executing ph \<le> slot ph"
  by (cases ph) simp_all

subsection \<open>Every schedule can be completed, and none runs forever\<close>

lemma fuel_step:
  assumes "step r worker e (s :: ('t, 'r) run_state) = Some s'"
  shows "fuel worker s' < fuel worker s"
proof (cases e)
  case Acquire
  then show ?thesis using assms by (auto simp: fuel_def split: if_splits)
next
  case Go
  then show ?thesis using assms by (auto simp: fuel_def split: if_splits list.splits)
next
  case LoopExit
  then show ?thesis using assms by (auto simp: fuel_def split: if_splits)
next
  case Close
  then have "pc s = Waiting" and "s' = s\<lparr>pc := Closed\<rparr>"
    using assms by (auto split: if_splits)
  then show ?thesis by (simp add: fuel_def)
next
  case Return
  then have "pc s = Closed" and "s' = s\<lparr>pc := Returned\<rparr>"
    using assms by (auto split: if_splits)
  then show ?thesis by (simp add: fuel_def)
next
  case (Call i)
  then obtain item where g: "i < length (goroutines s)" "goroutines s ! i = (item, Started)"
    and s': "s' = setPhase i (Running (worker item)) s"
    using assms by (auto simp: phaseOf_def split: if_splits phase.splits) (metis prod.collapse)
  show ?thesis
    using sum_setPhase [OF g(1), of "gfuel worker" "Running (worker item)"] g(2)
    unfolding s' fuel_def by simp
next
  case (Send i)
  obtain item a as where g: "i < length (goroutines s)" "goroutines s ! i = (item, Running (a # as))"
    using assms Send
    by (auto simp: phaseOf_def split: if_splits phase.splits list.splits) (metis prod.collapse)
  have u: "sum_list (map (gfuel worker) (goroutines (setPhase i (Running as) t))) + 2
      = sum_list (map (gfuel worker) (goroutines s))"
    if "goroutines t = goroutines s" for t :: "('t, 'r) run_state"
    using sum_setPhase [of i t "gfuel worker" "Running as"] g that by simp
  show ?thesis
  proof (cases a)
    case (SendMessage m)
    then have "s' = setPhase i (Running as) (s\<lparr>messagesC := Holding m\<rparr>)" and "messagesC s = Idle"
      using assms Send g by (auto simp: phaseOf_def split: if_splits)
    then show ?thesis
      using u [of "s\<lparr>messagesC := Holding m\<rparr>"] by (simp add: fuel_def)
  next
    case (SendResult x)
    then have "s' = setPhase i (Running as) (s\<lparr>resultsC := Holding x\<rparr>)" and "resultsC s = Idle"
      using assms Send g by (auto simp: phaseOf_def split: if_splits)
    then show ?thesis
      using u [of "s\<lparr>resultsC := Holding x\<rparr>"] by (simp add: fuel_def)
  next
    case (SendError x)
    then have "s' = setPhase i (Running as) (s\<lparr>errorsC := Holding x\<rparr>)" and "errorsC s = Idle"
      using assms Send g by (auto simp: phaseOf_def split: if_splits)
    then show ?thesis
      using u [of "s\<lparr>errorsC := Holding x\<rparr>"] by (simp add: fuel_def)
  qed
next
  case (WorkerReturn i)
  then obtain item ph where g: "i < length (goroutines s)" "goroutines s ! i = (item, Running [])"
    and s': "s' = setPhase i ph s" and ph: "ph = Releasing \<or> ph = Finishing"
    using assms
    by (auto simp: phaseOf_def split: if_splits phase.splits list.splits) (metis prod.collapse)+
  show ?thesis
    using sum_setPhase [OF g(1), of "gfuel worker" ph] g(2) ph
    unfolding s' fuel_def by auto
next
  case (Release i)
  then obtain item where g: "i < length (goroutines s)" "goroutines s ! i = (item, Releasing)"
    and s': "s' = setPhase i Finishing (s\<lparr>throttle := throttle s - 1\<rparr>)"
    using assms
    by (auto simp: phaseOf_def split: if_splits phase.splits list.splits) (metis prod.collapse)
  show ?thesis
    using sum_setPhase [of i "s\<lparr>throttle := throttle s - 1\<rparr>" "gfuel worker" Finishing] g
    unfolding s' fuel_def by simp
next
  case (WgDone i)
  then obtain item where g: "i < length (goroutines s)" "goroutines s ! i = (item, Finishing)"
    and s': "s' = setPhase i Done s"
    using assms
    by (auto simp: phaseOf_def split: if_splits phase.splits list.splits) (metis prod.collapse)
  show ?thesis
    using sum_setPhase [OF g(1), of "gfuel worker" Done] g(2)
    unfolding s' fuel_def by simp
next
  case LogMessage
  then obtain m where "messagesC s = Holding m" and "s' = s\<lparr>messagesC := Idle,
        logged := logged s @ [LogPrefix (config r) @ '': '' @ m]\<rparr>"
    using assms by (cases "messagesC s") auto
  then show ?thesis by (simp add: fuel_def)
next
  case AppendResult
  then obtain x where "resultsC s = Holding x"
    and "s' = s\<lparr>resultsC := Idle, resultsList := resultsList s @ [x]\<rparr>"
    using assms by (cases "resultsC s") auto
  then show ?thesis by (simp add: fuel_def)
next
  case AppendError
  then obtain x where "errorsC s = Holding x"
    and "s' = s\<lparr>errorsC := Idle, errorsList := errorsList s @ [x]\<rparr>"
    using assms by (cases "errorsC s") auto
  then show ?thesis by (simp add: fuel_def)
next
  case ExitMessages
  then have "messagesC s = Idle" and "s' = s\<lparr>messagesC := Exited\<rparr>"
    using assms by (auto split: if_splits)
  then show ?thesis by (simp add: fuel_def)
next
  case ExitResults
  then have "resultsC s = Idle" and "s' = s\<lparr>resultsC := Exited\<rparr>"
    using assms by (auto split: if_splits)
  then show ?thesis by (simp add: fuel_def)
next
  case ExitErrors
  then have "errorsC s = Idle" and "s' = s\<lparr>errorsC := Exited\<rparr>"
    using assms by (auto split: if_splits)
  then show ?thesis by (simp add: fuel_def)
qed

lemma messages_can_step:
  "messagesC s = Holding m \<Longrightarrow> \<exists>e s'. step r worker e (s :: ('t, 'r) run_state) = Some s'"
  by (intro exI [of _ LogMessage]) simp

lemma results_can_step:
  "resultsC s = Holding x \<Longrightarrow> \<exists>e s'. step r worker e (s :: ('t, 'r) run_state) = Some s'"
  by (intro exI [of _ AppendResult]) simp

lemma errors_can_step:
  "errorsC s = Holding y \<Longrightarrow> \<exists>e s'. step r worker e (s :: ('t, 'r) run_state) = Some s'"
  by (intro exI [of _ AppendError]) simp

lemma goroutine_can_step:
  assumes i: "i < length (goroutines s)" and nd: "snd (goroutines s ! i) \<noteq> Done"
    and c: "messagesC s \<noteq> Exited" "resultsC s \<noteq> Exited" "errorsC s \<noteq> Exited"
    and t: "snd (goroutines s ! i) = Releasing \<longrightarrow> 0 < throttle s"
  shows "\<exists>e s'. step r worker e (s :: ('t, 'r) run_state) = Some s'"
proof (cases "snd (goroutines s ! i)")
  case Started
  then have "step r worker (Call i) s \<noteq> None"
    using i by (simp add: phaseOf_def)
  then show ?thesis by blast
next
  case (Running as)
  show ?thesis
  proof (cases as)
    case Nil
    then have "step r worker (WorkerReturn i) s \<noteq> None"
      using i Running by (simp add: phaseOf_def)
    then show ?thesis by blast
  next
    case (Cons a as')
    show ?thesis
    proof (cases a)
      case (SendMessage m)
      show ?thesis
      proof (cases "messagesC s")
        case Idle
        then have "step r worker (Send i) s \<noteq> None"
          using i Running Cons SendMessage by (simp add: phaseOf_def)
        then show ?thesis by blast
      next
        case (Holding v)
        then show ?thesis by (rule messages_can_step)
      next
        case Exited
        then show ?thesis using c by simp
      qed
    next
      case (SendResult x)
      show ?thesis
      proof (cases "resultsC s")
        case Idle
        then have "step r worker (Send i) s \<noteq> None"
          using i Running Cons SendResult by (simp add: phaseOf_def)
        then show ?thesis by blast
      next
        case (Holding v)
        then show ?thesis by (rule results_can_step)
      next
        case Exited
        then show ?thesis using c by simp
      qed
    next
      case (SendError x)
      show ?thesis
      proof (cases "errorsC s")
        case Idle
        then have "step r worker (Send i) s \<noteq> None"
          using i Running Cons SendError by (simp add: phaseOf_def)
        then show ?thesis by blast
      next
        case (Holding v)
        then show ?thesis by (rule errors_can_step)
      next
        case Exited
        then show ?thesis using c by simp
      qed
    qed
  qed
next
  case Releasing
  then have "step r worker (Release i) s \<noteq> None"
    using i t by (simp add: phaseOf_def)
  then show ?thesis by blast
next
  case Finishing
  then have "step r worker (WgDone i) s \<noteq> None"
    using i by (simp add: phaseOf_def)
  then show ?thesis by blast
next
  case Done
  then show ?thesis using nd by simp
qed

lemma sum_list_pos_nth:
  "0 < sum_list (map f xs) \<Longrightarrow> \<exists>i < length xs. 0 < (f (xs ! i) :: nat)"
proof (induction xs)
  case Nil
  then show ?case by simp
next
  case (Cons x xs)
  show ?case
  proof (cases "0 < f x")
    case True
    then show ?thesis by (intro exI [of _ 0]) simp
  next
    case False
    then obtain i where "i < length xs" "0 < f (xs ! i)"
      using Cons by auto
    then show ?thesis by (intro exI [of _ "Suc i"]) simp
  qed
qed

lemma nth_le_sum_list:
  "i < length xs \<Longrightarrow> (f (xs ! i) :: nat) \<le> sum_list (map f xs)"
proof (induction xs arbitrary: i)
  case Nil
  then show ?case by simp
next
  case (Cons x xs)
  show ?case
  proof (cases i)
    case 0
    then show ?thesis by simp
  next
    case (Suc k)
    then have "f (xs ! k) \<le> sum_list (map f xs)"
      using Cons by simp
    then show ?thesis using Suc by simp
  qed
qed

lemma releasing_has_slot:
  assumes "shaped r s" and "throttled r \<longrightarrow> slotted r s"
    and "i < length (goroutines s)" and "snd (goroutines s ! i) = Releasing"
  shows "0 < throttle s"
proof (cases "throttled r")
  case True
  have "slot (snd (goroutines s ! i)) \<le> sum_list (map (\<lambda>g. slot (snd g)) (goroutines s))"
    using assms(3) by (rule nth_le_sum_list)
  then show ?thesis
    using assms(2,4) True unfolding slotted_def by simp
next
  case False
  then have "Releasing \<notin> snd ` set (goroutines s)"
    using assms(1) unfolding shaped_def by simp
  then show ?thesis
    using assms(3,4) by (metis image_eqI nth_mem)
qed

lemma progress:
  assumes sh: "shaped r s" and sl: "throttled r \<longrightarrow> slotted r s" and nr: "pc s \<noteq> Returned"
  shows "\<exists>e s'. step r worker e (s :: ('t, 'r) run_state) = Some s'"
proof (cases "pc s")
  case AtLoop
  then have c: "messagesC s \<noteq> Exited" "resultsC s \<noteq> Exited" "errorsC s \<noteq> Exited"
    using sh unfolding shaped_def by simp_all
  show ?thesis
  proof (cases "pending s = []")
    case True
    then have "step r worker LoopExit s \<noteq> None" using AtLoop by simp
    then show ?thesis by blast
  next
    case ne: False
    show ?thesis
    proof (cases "throttled r \<and> \<not> int (throttle s) < MaxConcurrency (config r)")
      case False
      then have "step r worker Acquire s \<noteq> None" using AtLoop ne by auto
      then show ?thesis by blast
    next
      case True
      then have "0 < throttle s"
        unfolding throttled_def by linarith
      then have "0 < sum_list (map (\<lambda>g. slot (snd g)) (goroutines s))"
        using sl True AtLoop unfolding slotted_def by simp
      then obtain i where i: "i < length (goroutines s)" "0 < slot (snd (goroutines s ! i))"
        using sum_list_pos_nth by blast
      then have "snd (goroutines s ! i) \<noteq> Done"
        by (cases "snd (goroutines s ! i)") simp_all
      then show ?thesis
        using goroutine_can_step [OF i(1) _ c] releasing_has_slot [OF sh sl i(1)] by blast
    qed
  qed
next
  case Spawning
  then obtain item rest where "pending s = item # rest"
    using sh unfolding shaped_def by (cases "pending s") auto
  then have "step r worker Go s \<noteq> None" using Spawning by simp
  then show ?thesis by blast
next
  case Waiting
  then have c: "messagesC s \<noteq> Exited" "resultsC s \<noteq> Exited" "errorsC s \<noteq> Exited"
    using sh unfolding shaped_def by simp_all
  show ?thesis
  proof (cases "\<forall>g \<in> set (goroutines s). snd g = Done")
    case True
    then have "step r worker Close s \<noteq> None" using Waiting by simp
    then show ?thesis by blast
  next
    case False
    then obtain i where i: "i < length (goroutines s)" "snd (goroutines s ! i) \<noteq> Done"
      by (metis in_set_conv_nth)
    then show ?thesis
      using goroutine_can_step [OF i c] releasing_has_slot [OF sh sl i(1)] by blast
  qed
next
  case Closed
  show ?thesis
  proof (cases "messagesC s = Exited \<and> resultsC s = Exited \<and> errorsC s = Exited")
    case True
    then have "step r worker Return s \<noteq> None" using Closed by simp
    then show ?thesis by blast
  next
    case False
    then consider "messagesC s = Idle" | "resultsC s = Idle" | "errorsC s = Idle"
      | m where "messagesC s = Holding m" | x where "resultsC s = Holding x"
      | y where "errorsC s = Holding y"
      by (metis collector.exhaust)
    then show ?thesis
    proof cases
      case 1
      then have "step r worker ExitMessages s \<noteq> None" using Closed by simp
      then show ?thesis by blast
    next
      case 2
      then have "step r worker ExitResults s \<noteq> None" using Closed by simp
      then show ?thesis by blast
    next
      case 3
      then have "step r worker ExitErrors s \<noteq> None" using Closed by simp
      then show ?thesis by blast
    next
      case 4
      then show ?thesis by (rule messages_can_step)
    next
      case 5
      then show ?thesis by (rule results_can_step)
    next
      case 6
      then show ?thesis by (rule errors_can_step)
    qed
  qed
next
  case Returned
  then show ?thesis using nr by simp
qed

lemma can_finish:
  assumes "shaped r s" and "throttled r \<longrightarrow> slotted r s"
  shows "\<exists>es s'. exec r worker es (s :: ('t, 'r) run_state) = Some s' \<and> pc s' = Returned \<and>
           length es \<le> fuel worker s"
  using assms
proof (induction "fuel worker s" arbitrary: s rule: less_induct)
  case less
  show ?case
  proof (cases "pc s = Returned")
    case True
    then have "exec r worker [] s = Some s \<and> pc s = Returned \<and> length [] \<le> fuel worker s"
      by simp
    then show ?thesis by blast
  next
    case False
    then obtain e s1 where e: "step r worker e s = Some s1"
      using progress [OF less.prems False] by blast
    have f: "fuel worker s1 < fuel worker s"
      using e by (rule fuel_step)
    have "shaped r s1"
      using e less.prems(1) by (rule shaped_step)
    moreover have "throttled r \<longrightarrow> slotted r s1"
      using e less.prems(2) slotted_step by blast
    ultimately obtain es s' where
      "exec r worker es s1 = Some s'" "pc s' = Returned" "length es \<le> fuel worker s1"
      using less.hyps [OF f] by blast
    then have "exec r worker (e # es) s = Some s' \<and> pc s' = Returned \<and>
        length (e # es) \<le> fuel worker s"
      using e f by simp
    then show ?thesis by blast
  qed
qed

lemma exec_length_fuel:
  "exec r worker es (s :: ('t, 'r) run_state) = Some s' \<Longrightarrow>
     length es + fuel worker s' \<le> fuel worker s"
proof (induction es arbitrary: s)
  case Nil
  then show ?case by simp
next
  case (Cons e es)
  then obtain s1 where e: "step r worker e s = Some s1" and r: "exec r worker es s1 = Some s'"
    by (cases "step r worker e s") auto
  show ?case
    using Cons.IH [OF r] fuel_step [OF e] by simp
qed

subsection \<open>Every item is dispatched once\<close>

lemma map_fst_setPhase: "map fst (goroutines (setPhase i ph s)) = map fst (goroutines s)"
  by (simp add: setPhase_def map_update) (metis list_update_id map_update)

lemma dispatched_step:
  assumes "step r worker e (s :: ('t, 'r) run_state) = Some s'" and "dispatched items s"
  shows "dispatched items s'"
proof (cases "\<exists>i. e \<in> workerEvents i")
  case True
  then obtain i where "e \<in> workerEvents i" ..
  from worker_step [OF assms(1) this] obtain ph' where
    "goroutines s' = goroutines (setPhase i ph' s)" "pending s' = pending s"
    by blast
  then show ?thesis
    using assms(2) by (simp add: dispatched_def map_fst_setPhase)
next
  case False
  then consider "e = Acquire" | "e = Go" | "e = LoopExit" | "e = Close" | "e = Return"
    | "e = LogMessage" | "e = AppendResult" | "e = AppendError"
    | "e = ExitMessages" | "e = ExitResults" | "e = ExitErrors"
    by (cases e) (auto simp: workerEvents_def)
  then show ?thesis
  proof cases
    case 1
    then show ?thesis using assms by (auto simp: dispatched_def split: if_splits)
  next
    case 2
    then show ?thesis using assms by (auto simp: dispatched_def split: if_splits list.splits)
  next
    case 3
    then show ?thesis using assms by (auto simp: dispatched_def split: if_splits)
  next
    case 4
    then have "s' = s\<lparr>pc := Closed\<rparr>" using assms(1) by (auto split: if_splits)
    then show ?thesis using assms(2) by (simp add: dispatched_def)
  next
    case 5
    then have "s' = s\<lparr>pc := Returned\<rparr>" using assms(1) by (auto split: if_splits)
    then show ?thesis using assms(2) by (simp add: dispatched_def)
  next
    case 6
    then obtain m where "s' = s\<lparr>messagesC := Idle,
        logged := logged s @ [LogPrefix (config r) @ '': '' @ m]\<rparr>"
      using assms(1) by (cases "messagesC s") auto
    then show ?thesis using assms(2) by (simp add: dispatched_def)
  next
    case 7
    then obtain x where "s' = s\<lparr>resultsC := Idle, resultsList := resultsList s @ [x]\<rparr>"
      using assms(1) by (cases "resultsC s") auto
    then show ?thesis using assms(2) by (simp add: dispatched_def)
  next
    case 8
    then obtain x where "s' = s\<lparr>errorsC := Idle, errorsList := errorsList s @ [x]\<rparr>"
      using assms(1) by (cases "errorsC s") auto
    then show ?thesis using assms(2) by (simp add: dispatched_def)
  next
    case 9
    then have "s' = s\<lparr>messagesC := Exited\<rparr>" using assms(1) by (auto split: if_splits)
    then show ?thesis using assms(2) by (simp add: dispatched_def)
  next
    case 10
    then have "s' = s\<lparr>resultsC := Exited\<rparr>" using assms(1) by (auto split: if_splits)
    then show ?thesis using assms(2) by (simp add: dispatched_def)
  next
    case 11
    then have "s' = s\<lparr>errorsC := Exited\<rparr>" using assms(1) by (auto split: if_splits)
    then show ?thesis using assms(2) by (simp add: dispatched_def)
  qed
qed

lemma reachable_dispatched:
  "exec r worker es (start items) = Some (s :: ('t, 'r) run_state) \<Longrightarrow> dispatched items s"
proof -
  have "dispatched items (start items :: ('t, 'r) run_state)"
    by (simp add: dispatched_def start_def)
  moreover assume "exec r worker es (start items) = Some s"
  ultimately show ?thesis
    using exec_invariant [of r worker "dispatched items" es "start items" s] dispatched_step
    by blast
qed

lemma returned_dispatched:
  assumes "exec r worker es (start items) = Some s" and "pc s = Returned"
  shows "map fst (goroutines s) = items"
proof -
  have "pending s = []"
    using reachable_shaped [OF assms(1)] assms(2) unfolding shaped_def by simp
  then show ?thesis
    using reachable_dispatched [OF assms(1)] by (simp add: dispatched_def)
qed

lemma step_unthrottled:
  assumes "\<not> throttled r" and "\<not> throttled r'"
    and "LogPrefix (config r) = LogPrefix (config r')"
  shows "step r worker e s = step r' worker e s"
  using assms by (cases e) (simp_all split: collector.splits)

lemma exec_unthrottled:
  assumes "\<not> throttled r" and "\<not> throttled r'"
    and "LogPrefix (config r) = LogPrefix (config r')"
  shows "exec r worker es s = exec r' worker es s"
  by (induction es arbitrary: s)
     (simp_all add: step_unthrottled [OF assms] split: option.splits)

subsection \<open>The claims on the runner\<close>

lemma Run_demo:
  "Run (NewRunner \<lparr>MaxConcurrency = 1, LogPrefix = []\<rparr>) demo_worker [0, 1] demo_schedule =
     Some \<lparr>Results = [''done''], Errors = [''failed'']\<rparr>"
  by code_simp

text \<open>
  Claim C1. For a non-empty list of items and a worker that sends exactly one outcome per
  item: whenever \<open>Run\<close> returns, the lengths of \<open>Results\<close> and \<open>Errors\<close> add up to the
  number of items; and \<open>Run\<close> does return: whatever the scheduler has done so far, the
  run can be completed, and no schedule is longer than the fuel of the start state.
\<close>

theorem Run_completeness:
  assumes "items \<noteq> []" and "\<forall>item \<in> set items. outcomes (worker item) = 1"
  shows
    "(\<forall>schedule res. Run r worker items schedule = Some res \<longrightarrow>
        length (Results res) + length (Errors res) = length items) \<and>
     (\<forall>schedule s. exec r worker schedule (start items) = Some s \<longrightarrow>
        (\<exists>rest res. Run r worker items (schedule @ rest) = Some res)) \<and>
     (\<forall>schedule s. exec r worker schedule (start items) = Some s \<longrightarrow>
        length schedule \<le> fuel worker (start items :: ('t, 'r) run_state))"
proof (intro conjI allI impI)
  fix schedule and res :: "'r RunResult"
  assume "Run r worker items schedule = Some res"
  then obtain s :: "('t, 'r) run_state" where
    s: "exec r worker schedule (start items) = Some s" "pc s = Returned"
    and res: "res = \<lparr>Results = resultsList s, Errors = errorsList s\<rparr>"
    by (auto simp: Run_def split: option.splits if_splits)
  show "length (Results res) + length (Errors res) = length items"
    using returned_count [OF s] assms(2) by (simp add: res outcomes_one)
next
  fix schedule and s :: "('t, 'r) run_state"
  assume s: "exec r worker schedule (start items) = Some s"
  have "shaped r s" using s by (rule reachable_shaped)
  moreover have "throttled r \<longrightarrow> slotted r s" using s reachable_slotted by blast
  ultimately obtain rest s' where "exec r worker rest s = Some s'" "pc s' = Returned"
    using can_finish by blast
  then have "Run r worker items (schedule @ rest) =
      Some \<lparr>Results = resultsList s', Errors = errorsList s'\<rparr>"
    using s by (simp add: Run_def exec_append)
  then show "\<exists>rest res. Run r worker items (schedule @ rest) = Some res"
    by blast
next
  fix schedule and s :: "('t, 'r) run_state"
  assume "exec r worker schedule (start items) = Some s"
  then show "length schedule \<le> fuel worker (start items :: ('t, 'r) run_state)"
    using exec_length_fuel by fastforce
qed

theorem Run_completeness_witness:
  "[0, 1 :: nat] \<noteq> [] \<and> outcomes (demo_worker 0) = 1 \<and> outcomes (demo_worker 1) = 1 \<and>
   Run (NewRunner \<lparr>MaxConcurrency = 1, LogPrefix = []\<rparr>) demo_worker [0, 1] demo_schedule =
     Some \<lparr>Results = [''done''], Errors = [''failed'']\<rparr> \<and>
   length (Results \<lparr>Results = [''done''], Errors = [''failed'']\<rparr>) +
     length (Errors \<lparr>Results = [''done''], Errors = [''failed'']\<rparr>) = length [0, 1 :: nat]"
proof -
  have h: "\<forall>item \<in> set [0, 1]. outcomes (demo_worker item) = 1"
    by (simp add: demo_worker_def outcomes_def)
  have "[0, 1 :: nat] \<noteq> []" by simp
  from Run_completeness [OF this h, of "NewRunner \<lparr>MaxConcurrency = 1, LogPrefix = []\<rparr>",
      THEN conjunct1, rule_format, OF Run_demo]
  show ?thesis using h Run_demo by simp
qed

text \<open>
  Claim C2. With \<^verbatim>\<open>MaxConcurrency = C > 0\<close>, in every state that a schedule of \<open>Run\<close>
  reaches, the goroutines that are inside \<open>worker\<close> are at most \<open>C\<close>. The throttle holds
  one value for each goroutine from before its start until its deferred receive, after
  the worker has returned (and one more while \<open>Run\<close> is between its send on the throttle
  and the \<^verbatim>\<open>go\<close> statement), and never more than \<open>C\<close> values.
\<close>

theorem Run_concurrency_bound:
  assumes "MaxConcurrency (config r) > 0"
    and "exec r worker schedule (start items) = Some s"
  shows
    "int (sum_list (map (\<lambda>g. executing (snd g)) (goroutines s))) \<le> MaxConcurrency (config r) \<and>
     sum_list (map (\<lambda>g. executing (snd g)) (goroutines s))
       \<le> sum_list (map (\<lambda>g. slot (snd g)) (goroutines s)) \<and>
     throttle s =
       (if pc s = Spawning then 1 else 0) + sum_list (map (\<lambda>g. slot (snd g)) (goroutines s)) \<and>
     int (throttle s) \<le> MaxConcurrency (config r)"
proof -
  have "slotted r s"
    using assms reachable_slotted [of r worker schedule items s] by (simp add: throttled_def)
  moreover have "sum_list (map (\<lambda>g. executing (snd g)) (goroutines s))
       \<le> sum_list (map (\<lambda>g. slot (snd g)) (goroutines s))"
    by (rule sum_list_mono) (rule executing_le_slot)
  ultimately show ?thesis
    unfolding slotted_def by auto
qed

text \<open>With one slot and the first worker inside \<open>worker\<close>, the send on the throttle for the
  second item cannot happen.\<close>

theorem Run_concurrency_bound_witness:
  "MaxConcurrency (config (NewRunner \<lparr>MaxConcurrency = 1, LogPrefix = []\<rparr>)) > 0 \<and>
   (\<exists>s. exec (NewRunner \<lparr>MaxConcurrency = 1, LogPrefix = []\<rparr>) demo_worker
          [Acquire, Go, Call 0] (start [0, 1]) = Some s \<and>
        map snd (goroutines s) = [Running (demo_worker 0)] \<and>
        int (sum_list (map (\<lambda>g. executing (snd g)) (goroutines s))) \<le> 1 \<and>
        step (NewRunner \<lparr>MaxConcurrency = 1, LogPrefix = []\<rparr>) demo_worker Acquire s = None)"
proof -
  let ?r = "NewRunner \<lparr>MaxConcurrency = 1, LogPrefix = []\<rparr>"
  let ?s = "\<lparr>pc = AtLoop, pending = [1 :: nat], throttle = 1,
             goroutines = [(0, Running (demo_worker 0))],
             messagesC = Idle, resultsC = Idle, errorsC = Idle,
             logged = [], resultsList = [], errorsList = []\<rparr> :: (nat, string) run_state"
  have m: "MaxConcurrency (config ?r) > 0"
    by (simp add: NewRunner_def)
  have e: "exec ?r demo_worker [Acquire, Go, Call 0] (start [0, 1]) = Some ?s"
    by (simp add: start_def NewRunner_def throttled_def phaseOf_def setPhase_def)
  have "int (sum_list (map (\<lambda>g. executing (snd g)) (goroutines ?s))) \<le> MaxConcurrency (config ?r)"
    using Run_concurrency_bound [OF m e] by blast
  moreover have "step ?r demo_worker Acquire ?s = None"
    by (simp add: NewRunner_def throttled_def)
  ultimately show ?thesis
    using m e by (simp add: NewRunner_def)
qed

text \<open>
  Claim C8. On the empty list \<open>Run\<close> returns at once, with empty \<open>Results\<close> and \<open>Errors\<close>:
  it starts in the returned state, in which no goroutine has been started and no event
  can happen, so the worker is never called.
\<close>

theorem Run_empty:
  "Run r worker [] [] = Some \<lparr>Results = [], Errors = []\<rparr> \<and>
   goroutines (start [] :: ('t, 'r) run_state) = [] \<and>
   (\<forall>e. step r worker e (start [] :: ('t, 'r) run_state) = None) \<and>
   (\<forall>e schedule. Run r (worker :: ('t, 'r) WorkerFunc) [] (e # schedule) = None)"
proof -
  have n: "step r worker e (start [] :: ('t, 'r) run_state) = None" for e
    by (cases e) (simp_all add: start_def phaseOf_def)
  then show ?thesis
    by (simp add: Run_def) (simp add: start_def)
qed

theorem Run_empty_witness:
  "Run (NewRunner \<lparr>MaxConcurrency = 1, LogPrefix = []\<rparr>) demo_worker [] [] =
     Some \<lparr>Results = [], Errors = []\<rparr> \<and>
   step (NewRunner \<lparr>MaxConcurrency = 1, LogPrefix = []\<rparr>) demo_worker Acquire (start []) = None \<and>
   step (NewRunner \<lparr>MaxConcurrency = 1, LogPrefix = []\<rparr>) demo_worker (Call 0) (start []) = None"
  using Run_empty [of "NewRunner \<lparr>MaxConcurrency = 1, LogPrefix = []\<rparr>" demo_worker]
  by blast

text \<open>
  Claim C7, as the code has it. A negative \<^verbatim>\<open>MaxConcurrency\<close> is not rejected: \<open>NewRunner\<close>
  keeps it, \<open>Run\<close> makes no throttle, as for 0, and behaves under every schedule as it does
  for 0; a run that returns has started one goroutine for each item.
\<close>

theorem Run_negative_concurrency:
  assumes "MaxConcurrency cfg < 0"
  shows
    "MaxConcurrency (config (NewRunner cfg)) = MaxConcurrency cfg \<and>
     (\<forall>schedule. Run (NewRunner cfg) worker items schedule =
        Run (NewRunner (cfg\<lparr>MaxConcurrency := 0\<rparr>)) worker items schedule) \<and>
     (\<forall>schedule s. exec (NewRunner cfg) worker schedule (start items) = Some s \<and>
        pc s = Returned \<longrightarrow> map fst (goroutines s) = items)"
proof -
  have a: "\<not> throttled (NewRunner cfg)" "\<not> throttled (NewRunner (cfg\<lparr>MaxConcurrency := 0\<rparr>))"
    using assms by (simp_all add: throttled_def NewRunner_def)
  have b: "LogPrefix (config (NewRunner cfg)) =
      LogPrefix (config (NewRunner (cfg\<lparr>MaxConcurrency := 0\<rparr>)))"
    by (simp add: NewRunner_def)
  have "Run (NewRunner cfg) worker items schedule =
        Run (NewRunner (cfg\<lparr>MaxConcurrency := 0\<rparr>)) worker items schedule" for schedule
    unfolding Run_def exec_unthrottled [OF a b] ..
  moreover have "MaxConcurrency (config (NewRunner cfg)) = MaxConcurrency cfg"
    by (simp add: NewRunner_def)
  ultimately show ?thesis
    using returned_dispatched by blast
qed

lemma Run_negative_demo:
  "Run (NewRunner \<lparr>MaxConcurrency = - 1, LogPrefix = []\<rparr>) demo_worker [1] negative_schedule =
     Some \<lparr>Results = [''done''], Errors = []\<rparr>"
  by code_simp

theorem Run_negative_concurrency_witness:
  "MaxConcurrency \<lparr>MaxConcurrency = - 1, LogPrefix = []\<rparr> < 0 \<and>
   Run (NewRunner \<lparr>MaxConcurrency = 0, LogPrefix = []\<rparr>) demo_worker [1] negative_schedule =
     Some \<lparr>Results = [''done''], Errors = []\<rparr>"
  using Run_negative_concurrency [of "\<lparr>MaxConcurrency = - 1, LogPrefix = []\<rparr>" demo_worker "[1]",
      THEN conjunct2, THEN conjunct1, rule_format, of negative_schedule]
    Run_negative_demo
  by simp

text \<open>
  Claim C7 as it is stated fails: with \<^verbatim>\<open>MaxConcurrency = -1\<close> the runner is made, the
  worker is called on the item and \<open>Run\<close> returns its result.
\<close>

theorem Run_negative_concurrency_counterexample:
  "MaxConcurrency (config (NewRunner \<lparr>MaxConcurrency = - 1, LogPrefix = []\<rparr>)) = - 1 \<and>
   map (map_option (map snd \<circ> goroutines))
     [exec (NewRunner \<lparr>MaxConcurrency = - 1, LogPrefix = []\<rparr>) demo_worker
        [Acquire, Go, Call 0] (start [1])] =
     [Some [Running (demo_worker 1)]] \<and>
   Run (NewRunner \<lparr>MaxConcurrency = - 1, LogPrefix = []\<rparr>) demo_worker [1] negative_schedule =
     Some \<lparr>Results = [''done''], Errors = []\<rparr>"
proof (intro conjI)
  show "Run (NewRunner \<lparr>MaxConcurrency = - 1, LogPrefix = []\<rparr>) demo_worker [1]
      negative_schedule = Some \<lparr>Results = [''done''], Errors = []\<rparr>"
    by (rule Run_negative_demo)
qed (simp_all add: NewRunner_def start_def throttled_def phaseOf_def setPhase_def)

end
